theory Spec2Isabelle
  imports Main "HOL-Library.Sublist" "HOL-Library.AList" "HOL-Library.List_Lexorder" "HOL-Library.Char_ord"
begin

section \<open>Strings and paths\<close>

text \<open>
  The embedding follows \<^verbatim>\<open>util/file.go\<close> on a Unix platform: the path separator
  \<^verbatim>\<open>filepath.Separator\<close> is the slash, and \<^verbatim>\<open>filepath.ToSlash\<close> is the identity.
  A Go \<^verbatim>\<open>string\<close> is a byte sequence, here a \<^typ>\<open>string\<close>.
\<close>

definition Separator :: char where
  "Separator = CHR ''/''"

text \<open>\<^verbatim>\<open>strings.Split(s, sep)\<close> for a one-byte separator: the pieces between the
  separators, so that an empty string gives one empty piece.\<close>

fun strings_Split :: "string \<Rightarrow> char \<Rightarrow> string list" where
  "strings_Split [] sep = [[]]"
| "strings_Split (c # cs) sep =
     (if c = sep then [] # strings_Split cs sep
      else (case strings_Split cs sep of
              [] \<Rightarrow> [[c]]
            | p # ps \<Rightarrow> (c # p) # ps))"

text \<open>\<^verbatim>\<open>strings.HasPrefix\<close>.\<close>

definition strings_HasPrefix :: "string \<Rightarrow> string \<Rightarrow> bool" where
  "strings_HasPrefix s pre = (take (length pre) s = pre)"

text \<open>\<^verbatim>\<open>PathContainsHiddenFileOrFolder\<close>: the loop over the parts returns true at the
  first part that starts with a dot and is neither \<^verbatim>\<open>.\<close> nor \<^verbatim>\<open>..\<close>.\<close>

fun hidden_loop :: "string list \<Rightarrow> bool" where
  "hidden_loop [] = False"
| "hidden_loop (pathPart # pathParts) =
     (if strings_HasPrefix pathPart ''.'' \<and> pathPart \<noteq> ''.'' \<and> pathPart \<noteq> ''..'' then True
      else hidden_loop pathParts)"

definition PathContainsHiddenFileOrFolder :: "string \<Rightarrow> bool" where
  "PathContainsHiddenFileOrFolder path = hidden_loop (strings_Split path Separator)"

text \<open>The filter that \<^verbatim>\<open>CopyFolderContents\<close> passes on.\<close>

definition default_filter :: "string \<Rightarrow> bool" where
  "default_filter path = (\<not> PathContainsHiddenFileOrFolder path)"

text \<open>The claim's words: a relative path is its components joined by the separator, and a
  component is hidden when it starts with a dot and is neither of the two dot entries.\<close>

fun join_components :: "string list \<Rightarrow> string" where
  "join_components [] = []"
| "join_components [c] = c"
| "join_components (c # d # cs) = c @ Separator # join_components (d # cs)"

definition hidden_component :: "string \<Rightarrow> bool" where
  "hidden_component c = (\<exists>r. c = CHR ''.'' # r \<and> c \<noteq> ''.'' \<and> c \<noteq> ''..'')"

section \<open>The filesystem\<close>

text \<open>
  The program works on one filesystem through the \<^verbatim>\<open>os\<close>, \<^verbatim>\<open>ioutil\<close> and
  \<^verbatim>\<open>filepath\<close> packages. A path is the list of its components below the root, absolute
  and clean; the \<^verbatim>\<open>source\<close> and \<^verbatim>\<open>destination\<close> arguments are given in this form. The
  filesystem is an association list from paths to nodes. The process has the umask 0:
  permission bits are stored as they are requested. There is no access control, and the
  target of a symbolic link is an absolute path.
\<close>

type_synonym path = "string list"
type_synonym perm = nat

datatype node = File perm string | Dir perm | Symlink perm path

datatype error =
  ENOENT | ENOTDIR | EISDIR | EEXIST | ELOOP | EINVAL | EBUSY | ENOTEMPTY
  | EOF | ErrUnexpectedEOF | ErrGob | ErrInvalid | ErrClosed | ErrBadPattern

record state =
  entries :: "(path \<times> node) list"
  opened :: "path list"
  cwd :: path

definition perm_0755 :: perm where "perm_0755 = 493"
definition perm_0700 :: perm where "perm_0700 = 448"
definition perm_0644 :: perm where "perm_0644 = 420"

text \<open>The node at a canonical path; the root directory always exists.\<close>

definition look :: "state \<Rightarrow> path \<Rightarrow> node option" where
  "look st p = (if p = [] then Some (Dir perm_0755) else map_of (entries st) p)"

definition put :: "state \<Rightarrow> path \<Rightarrow> node \<Rightarrow> state" where
  "put st p nd = st\<lparr>entries := AList.update p nd (entries st)\<rparr>"

text \<open>Removing a path with everything below it.\<close>

definition remove_tree :: "state \<Rightarrow> path \<Rightarrow> state" where
  "remove_tree st p = st\<lparr>entries := filter (\<lambda>(q, nd). \<not> prefix p q) (entries st)\<rparr>"

text \<open>The names in a directory, sorted as \<^verbatim>\<open>filepath.Glob\<close> returns them.\<close>

definition children :: "state \<Rightarrow> path \<Rightarrow> string list" where
  "children st d = sort (remdups (map (\<lambda>(q, nd). last q)
      (filter (\<lambda>(q, nd). q \<noteq> [] \<and> butlast q = d) (entries st))))"

text \<open>
  Path resolution, as the kernel does it: \<^verbatim>\<open>cur\<close> is the canonical directory reached so
  far, the remaining components are walked one at a time, a symbolic link restarts the
  walk at its target, and at most \<^verbatim>\<open>k\<close> links are followed. The last component is
  followed only when \<^verbatim>\<open>follow\<close> is set (\<^verbatim>\<open>stat\<close> against \<^verbatim>\<open>lstat\<close>); it may be absent.
\<close>

function resolve :: "state \<Rightarrow> bool \<Rightarrow> nat \<Rightarrow> path \<Rightarrow> string list \<Rightarrow> error + path" where
  "resolve st follow k cur [] = Inr cur"
| "resolve st follow k cur (c # rest) =
     (if c = [] \<or> c = ''.'' then resolve st follow k cur rest
      else if c = ''..'' then resolve st follow k (butlast cur) rest
      else (case look st (cur @ [c]) of
              None \<Rightarrow> if rest = [] then Inr (cur @ [c]) else Inl ENOENT
            | Some (Dir pm) \<Rightarrow> resolve st follow k (cur @ [c]) rest
            | Some (File pm bs) \<Rightarrow> if rest = [] then Inr (cur @ [c]) else Inl ENOTDIR
            | Some (Symlink pm t) \<Rightarrow>
                if rest = [] \<and> \<not> follow then Inr (cur @ [c])
                else if k = 0 then Inl ELOOP
                else resolve st follow (k - 1) [] (t @ rest)))"
  by pat_completeness auto
termination
  by (relation "measures [\<lambda>(st, follow, k, cur, rest). k, \<lambda>(st, follow, k, cur, rest). length rest]")
     auto

declare resolve.simps [simp del]

definition symloop_max :: nat where "symloop_max = 40"

definition os_Stat :: "state \<Rightarrow> path \<Rightarrow> error + node" where
  "os_Stat st name =
     (case resolve st True symloop_max [] name of
        Inl e \<Rightarrow> Inl e
      | Inr q \<Rightarrow> (case look st q of None \<Rightarrow> Inl ENOENT | Some nd \<Rightarrow> Inr nd))"

definition os_Lstat :: "state \<Rightarrow> path \<Rightarrow> error + node" where
  "os_Lstat st name =
     (case resolve st False symloop_max [] name of
        Inl e \<Rightarrow> Inl e
      | Inr q \<Rightarrow> (case look st q of None \<Rightarrow> Inl ENOENT | Some nd \<Rightarrow> Inr nd))"

text \<open>\<^verbatim>\<open>FileInfo.Mode()\<close>, as far as the permission bits go, and \<^verbatim>\<open>FileInfo.IsDir()\<close>.\<close>

fun Mode :: "node \<Rightarrow> perm" where
  "Mode (File pm bs) = pm"
| "Mode (Dir pm) = pm"
| "Mode (Symlink pm t) = pm"

fun node_IsDir :: "node \<Rightarrow> bool" where
  "node_IsDir (Dir pm) = True"
| "node_IsDir nd = False"

definition FileExists :: "state \<Rightarrow> path \<Rightarrow> bool" where
  "FileExists st p = (case os_Stat st p of Inl err \<Rightarrow> False | Inr fileInfo \<Rightarrow> True)"

definition IsDir :: "state \<Rightarrow> path \<Rightarrow> bool" where
  "IsDir st p = (case os_Stat st p of Inl err \<Rightarrow> False | Inr fileInfo \<Rightarrow> node_IsDir fileInfo)"

definition IsFile :: "state \<Rightarrow> path \<Rightarrow> bool" where
  "IsFile st p = (case os_Stat st p of Inl err \<Rightarrow> False | Inr fileInfo \<Rightarrow> \<not> node_IsDir fileInfo)"

text \<open>
  \<^verbatim>\<open>filepath.Rel\<close> on absolute clean paths: drop the common prefix, climb out of what is
  left of the base, descend into what is left of the target. \<^verbatim>\<open>GetPathRelativeTo\<close> calls
  it on the absolute forms of its arguments, which they already are, and has no error here.
\<close>

fun strip_common :: "path \<Rightarrow> path \<Rightarrow> path \<times> path" where
  "strip_common (a # as) (b # bs) = (if a = b then strip_common as bs else (a # as, b # bs))"
| "strip_common as bs = (as, bs)"

definition filepath_Rel :: "path \<Rightarrow> path \<Rightarrow> string" where
  "filepath_Rel basepath targpath =
     (case strip_common basepath targpath of
        (b, t) \<Rightarrow> (let parts = replicate (length b) ''..'' @ t
                   in if parts = [] then ''.'' else join_components parts))"

definition GetPathRelativeTo :: "path \<Rightarrow> path \<Rightarrow> string" where
  "GetPathRelativeTo p basePath = filepath_Rel basePath p"

text \<open>\<^verbatim>\<open>filepath.Join(dir, elem)\<close>: the lexical \<^verbatim>\<open>Clean\<close> of the two joined by a slash.\<close>

fun clean_onto :: "path \<Rightarrow> string list \<Rightarrow> path" where
  "clean_onto acc [] = acc"
| "clean_onto acc (c # cs) =
     (if c = [] \<or> c = ''.'' then clean_onto acc cs
      else if c = ''..'' then clean_onto (butlast acc) cs
      else clean_onto (acc @ [c]) cs)"

definition filepath_Join :: "path \<Rightarrow> string \<Rightarrow> path" where
  "filepath_Join dir elem = clean_onto [] (dir @ strings_Split elem Separator)"

definition filepath_Dir :: "path \<Rightarrow> path" where
  "filepath_Dir p = butlast p"

text \<open>A canonical path as the string the program holds.\<close>

definition path_string :: "path \<Rightarrow> string" where
  "path_string p = (if p = [] then [Separator] else concat (map (\<lambda>c. Separator # c) p))"

section \<open>Listing a directory\<close>

text \<open>
  \<^verbatim>\<open>filepath.Match\<close>, as the library has it on Unix. A pattern is cut at its stars into
  chunks (\<^verbatim>\<open>scanChunk\<close>); a chunk is matched at the front of the name
  (\<^verbatim>\<open>matchChunk\<close>), with \<^verbatim>\<open>?\<close> for one character other than the separator, a class
  \<^verbatim>\<open>[...]\<close> of characters and ranges, and a backslash to quote; a star stands for any
  characters other than the separator. A chunk is read to its end even after the match has
  failed, so a malformed pattern is \<^verbatim>\<open>ErrBadPattern\<close> whatever the name is.
\<close>

definition utf8_RuneError :: nat where "utf8_RuneError = 65533"

definition utf8_DecodeRuneInString :: "string \<Rightarrow> nat \<times> nat" where
  "utf8_DecodeRuneInString s =
     (case map of_char s of
        [] \<Rightarrow> (utf8_RuneError, 0)
      | b0 # t \<Rightarrow>
          if b0 < 128 then (b0, 1)
          else if 194 \<le> b0 \<and> b0 \<le> 223 then
            (case t of
               b1 # t1 \<Rightarrow>
                 if 128 \<le> b1 \<and> b1 \<le> 191 then ((b0 mod 32) * 64 + b1 mod 64, 2)
                 else (utf8_RuneError, 1)
             | _ \<Rightarrow> (utf8_RuneError, 1))
          else if 224 \<le> b0 \<and> b0 \<le> 239 then
            (case t of
               b1 # b2 # t2 \<Rightarrow>
                 if (if b0 = 224 then 160 else 128) \<le> b1 \<and> b1 \<le> (if b0 = 237 then 159 else 191) \<and>
                    128 \<le> b2 \<and> b2 \<le> 191
                 then ((b0 mod 16) * 4096 + (b1 mod 64) * 64 + b2 mod 64, 3)
                 else (utf8_RuneError, 1)
             | _ \<Rightarrow> (utf8_RuneError, 1))
          else if 240 \<le> b0 \<and> b0 \<le> 244 then
            (case t of
               b1 # b2 # b3 # t3 \<Rightarrow>
                 if (if b0 = 240 then 144 else 128) \<le> b1 \<and> b1 \<le> (if b0 = 244 then 143 else 191) \<and>
                    128 \<le> b2 \<and> b2 \<le> 191 \<and> 128 \<le> b3 \<and> b3 \<le> 191
                 then ((b0 mod 8) * 262144 + (b1 mod 64) * 4096 + (b2 mod 64) * 64 + b3 mod 64, 4)
                 else (utf8_RuneError, 1)
             | _ \<Rightarrow> (utf8_RuneError, 1))
          else (utf8_RuneError, 1))"

lemma utf8_width: "s \<noteq> [] \<Longrightarrow> 0 < snd (utf8_DecodeRuneInString s)"
  by (auto simp: utf8_DecodeRuneInString_def split: list.splits)

definition getEsc :: "string \<Rightarrow> error + nat \<times> string" where
  "getEsc chunk =
     (if chunk = [] \<or> hd chunk = CHR ''-'' \<or> hd chunk = CHR '']'' then Inl ErrBadPattern
      else (let chunk1 = (if hd chunk = CHR 0x5C then tl chunk else chunk)
            in if chunk1 = [] then Inl ErrBadPattern
               else (case utf8_DecodeRuneInString chunk1 of
                       (r, n) \<Rightarrow>
                         if r = utf8_RuneError \<and> n = 1 then Inl ErrBadPattern
                         else if drop n chunk1 = [] then Inl ErrBadPattern
                         else Inr (r, drop n chunk1))))"

lemma getEsc_shorter: "getEsc chunk = Inr (r, rest) \<Longrightarrow> length rest < length chunk \<and> rest \<noteq> []"
  using utf8_width [of chunk] utf8_width [of "tl chunk"]
  by (auto simp: getEsc_def Let_def split: if_splits prod.splits)

function class_ranges :: "string \<Rightarrow> nat \<Rightarrow> bool \<Rightarrow> bool \<Rightarrow> error + bool \<times> string" where
  "class_ranges chunk r match some =
     (if chunk \<noteq> [] \<and> hd chunk = CHR '']'' \<and> some then Inr (match, tl chunk)
      else (case getEsc chunk of
              Inl err \<Rightarrow> Inl err
            | Inr (lo, chunk1) \<Rightarrow>
                if hd chunk1 = CHR ''-'' then
                  (case getEsc (tl chunk1) of
                     Inl err \<Rightarrow> Inl err
                   | Inr (hi, chunk2) \<Rightarrow> class_ranges chunk2 r (match \<or> (lo \<le> r \<and> r \<le> hi)) True)
                else class_ranges chunk1 r (match \<or> lo = r) True))"
  by pat_completeness auto
termination
proof (relation "measure (\<lambda>(chunk, r, match, some). length chunk)")
  show "wf (measure (\<lambda>(chunk, r, match, some). length chunk))" by simp
next
  fix chunk :: string and r :: nat and match some :: bool and x2 lo chunk1 x2a hi chunk2
  assume "getEsc chunk = Inr x2" "(lo, chunk1) = x2" "getEsc (tl chunk1) = Inr x2a"
    "(hi, chunk2) = x2a"
  then have "getEsc chunk = Inr (lo, chunk1)" "getEsc (tl chunk1) = Inr (hi, chunk2)" by simp_all
  from getEsc_shorter [OF this(1)] getEsc_shorter [OF this(2)]
  have "length chunk1 < length chunk" "length chunk2 < length (tl chunk1)" by blast+
  then have "length chunk2 < length chunk" by (cases chunk1) auto
  then show "((chunk2, r, match \<or> lo \<le> r \<and> r \<le> hi, True), chunk, r, match, some)
      \<in> measure (\<lambda>(chunk, r, match, some). length chunk)" by simp
next
  fix chunk :: string and r :: nat and match some :: bool and x2 lo chunk1
  assume "getEsc chunk = Inr x2" "(lo, chunk1) = x2"
  then have "getEsc chunk = Inr (lo, chunk1)" by simp
  from getEsc_shorter [OF this]
  show "((chunk1, r, match \<or> lo = r, True), chunk, r, match, some)
      \<in> measure (\<lambda>(chunk, r, match, some). length chunk)" by simp
qed

declare class_ranges.simps [simp del]

lemma class_ranges_shorter:
  "class_ranges chunk r match some = Inr (b, rest) \<Longrightarrow> length rest \<le> length chunk"
proof (induction chunk r match some rule: class_ranges.induct)
  case (1 chunk r match some)
  show ?case
  proof (cases "chunk \<noteq> [] \<and> hd chunk = CHR '']'' \<and> some")
    case True
    with "1.prems" have "rest = tl chunk" by (simp add: class_ranges.simps [of chunk])
    then show ?thesis by simp
  next
    case False
    with "1.prems" obtain lo chunk1 where g: "getEsc chunk = Inr (lo, chunk1)"
      by (auto simp: class_ranges.simps [of chunk] split: sum.splits)
    from getEsc_shorter [OF g] have s1: "length chunk1 < length chunk" by simp
    show ?thesis
    proof (cases "hd chunk1 = CHR ''-''")
      case d: False
      with "1.prems" False g have "class_ranges chunk1 r (match \<or> lo = r) True = Inr (b, rest)"
        by (simp add: class_ranges.simps [of chunk])
      from "1.IH"(2) [OF False g refl d this] s1 show ?thesis by simp
    next
      case d: True
      with "1.prems" False g obtain hi chunk2 where g2: "getEsc (tl chunk1) = Inr (hi, chunk2)"
        and c: "class_ranges chunk2 r (match \<or> (lo \<le> r \<and> r \<le> hi)) True = Inr (b, rest)"
        by (auto simp: class_ranges.simps [of chunk] split: sum.splits)
      from getEsc_shorter [OF g2] have "length chunk2 < length chunk1" by (cases chunk1) auto
      with "1.IH"(1) [OF False g refl d g2 refl c] s1 show ?thesis by simp
    qed
  qed
qed


function matchChunk_loop :: "string \<Rightarrow> string \<Rightarrow> bool \<Rightarrow> error + string \<times> bool" where
  "matchChunk_loop chunk s failed0 =
     (case chunk of
        [] \<Rightarrow> if failed0 then Inr ([], False) else Inr (s, True)
      | c # cs \<Rightarrow>
          (let failed = (failed0 \<or> s = [])
           in if c = CHR ''['' then
                (let r = (if failed then 0 else fst (utf8_DecodeRuneInString s));
                     s1 = (if failed then s else drop (snd (utf8_DecodeRuneInString s)) s);
                     negated = (cs \<noteq> [] \<and> hd cs = CHR ''^'');
                     chunk1 = (if negated then tl cs else cs)
                 in case class_ranges chunk1 r False False of
                      Inl err \<Rightarrow> Inl err
                    | Inr (match, chunk2) \<Rightarrow>
                        matchChunk_loop chunk2 s1 (failed \<or> match = negated))
              else if c = CHR ''?'' then
                (if failed then matchChunk_loop cs s failed
                 else matchChunk_loop cs (drop (snd (utf8_DecodeRuneInString s)) s)
                        (hd s = Separator))
              else if c = CHR 0x5C then
                (case cs of
                   [] \<Rightarrow> Inl ErrBadPattern
                 | d # ds \<Rightarrow>
                     if failed then matchChunk_loop ds s failed
                     else matchChunk_loop ds (tl s) (d \<noteq> hd s))
              else if failed then matchChunk_loop cs s failed
              else matchChunk_loop cs (tl s) (c \<noteq> hd s)))"
  by pat_completeness auto
termination
  by (relation "measure (\<lambda>(chunk, s, failed). length chunk)")
     (auto dest!: class_ranges_shorter intro: le_less_trans
           simp: le_imp_less_Suc diff_le_self le_SucI split: if_splits)

declare matchChunk_loop.simps [simp del]

definition matchChunk :: "string \<Rightarrow> string \<Rightarrow> error + string \<times> bool" where
  "matchChunk chunk s = matchChunk_loop chunk s False"


fun scan_index :: "bool \<Rightarrow> string \<Rightarrow> nat" where
  "scan_index inrange [] = 0"
| "scan_index inrange (c # cs) =
     (if c = CHR 0x5C then (case cs of [] \<Rightarrow> 1 | d # ds \<Rightarrow> 2 + scan_index inrange ds)
      else if c = CHR ''['' then 1 + scan_index True cs
      else if c = CHR '']'' then 1 + scan_index False cs
      else if c = CHR ''*'' \<and> \<not> inrange then 0
      else 1 + scan_index inrange cs)"

definition scanChunk :: "string \<Rightarrow> bool \<times> string \<times> string" where
  "scanChunk pattern =
     (let p = dropWhile (\<lambda>c. c = CHR ''*'') pattern; i = scan_index False p
      in (pattern \<noteq> [] \<and> hd pattern = CHR ''*'', take i p, drop i p))"

lemma scan_index_pos: "p \<noteq> [] \<Longrightarrow> hd p \<noteq> CHR ''*'' \<Longrightarrow> 0 < scan_index False p"
  by (cases p) (auto split: list.splits)

lemma scanChunk_shorter:
  assumes "pattern \<noteq> []" "scanChunk pattern = (star, chunk, rest)"
  shows "length rest < length pattern"
proof -
  define p where "p = dropWhile (\<lambda>c. c = CHR ''*'') pattern"
  have r: "rest = drop (scan_index False p) p" using assms(2) by (simp add: scanChunk_def p_def Let_def)
  have lp: "length p \<le> length pattern" by (simp add: p_def length_dropWhile_le)
  show ?thesis
  proof (cases "p = []")
    case True
    with r assms(1) show ?thesis by simp
  next
    case False
    then have "hd p \<noteq> CHR ''*''" unfolding p_def by (metis (mono_tags, lifting) hd_dropWhile)
    from scan_index_pos [OF False this] False lp show ?thesis unfolding r by (cases p) auto
  qed
qed

function chunks :: "string \<Rightarrow> (bool \<times> string) list" where
  "chunks pattern =
     (if pattern = [] then []
      else (case scanChunk pattern of (star, chunk, rest) \<Rightarrow> (star, chunk) # chunks rest))"
  by pat_completeness auto
termination
  by (relation "measure length") (auto dest: scanChunk_shorter [OF _ sym])

declare chunks.simps [simp del]

fun star_search :: "string \<Rightarrow> bool \<Rightarrow> string \<Rightarrow> error + string option" where
  "star_search chunk lastc [] = Inr None"
| "star_search chunk lastc (c # cs) =
     (if c = Separator then Inr None
      else (case matchChunk chunk cs of
              Inl err \<Rightarrow> Inl err
            | Inr (t, ok) \<Rightarrow>
                if ok \<and> \<not> (lastc \<and> t \<noteq> []) then Inr (Some t)
                else star_search chunk lastc cs))"

fun validate :: "(bool \<times> string) list \<Rightarrow> error + bool" where
  "validate [] = Inr False"
| "validate ((star, chunk) # cs) =
     (case matchChunk chunk [] of Inl err \<Rightarrow> Inl err | Inr x \<Rightarrow> validate cs)"

fun Match_chunks :: "(bool \<times> string) list \<Rightarrow> string \<Rightarrow> error + bool" where
  "Match_chunks [] name = Inr (name = [])"
| "Match_chunks ((star, chunk) # cs) name =
     (if star \<and> chunk = [] then Inr (Separator \<notin> set name)
      else (case matchChunk chunk name of
              Inl err \<Rightarrow> Inl err
            | Inr (t, ok) \<Rightarrow>
                if ok \<and> (t = [] \<or> cs \<noteq> []) then Match_chunks cs t
                else if star then
                  (case star_search chunk (cs = []) name of
                     Inl err \<Rightarrow> Inl err
                   | Inr (Some t1) \<Rightarrow> Match_chunks cs t1
                   | Inr None \<Rightarrow> validate cs)
                else validate cs))"

definition filepath_Match :: "string \<Rightarrow> string \<Rightarrow> error + bool" where
  "filepath_Match pattern name = Match_chunks (chunks pattern) name"

definition hasMeta :: "string \<Rightarrow> bool" where
  "hasMeta p = list_ex (\<lambda>c. c = CHR ''*'' \<or> c = CHR ''?'' \<or> c = CHR ''['' \<or> c = CHR 0x5C) p"

text \<open>
  \<^verbatim>\<open>filepath.Glob\<close> on a pattern given by its components, the last one first. The pattern
  must be well formed. Without a magic character it names at most one path. Otherwise the
  last component is matched against the sorted names of each directory its parent
  pattern resolves to, by \<^verbatim>\<open>glob\<close>, which lists nothing for what is no directory; the
  parent is taken literally when it has no magic character and is expanded by
  \<^verbatim>\<open>Glob\<close> itself when it has. The program lists \<^verbatim>\<open>source\<close> with the pattern
  \<^verbatim>\<open>source + "/*"\<close>, so that magic characters in the names of \<^verbatim>\<open>source\<close> are read as
  pattern syntax.
\<close>

fun glob_names :: "path \<Rightarrow> string \<Rightarrow> string list \<Rightarrow> path list \<Rightarrow> path list \<times> error option" where
  "glob_names dir pattern [] m = (m, None)"
| "glob_names dir pattern (n # names) m =
     (case filepath_Match pattern n of
        Inl err \<Rightarrow> (m, Some err)
      | Inr matched \<Rightarrow>
          glob_names dir pattern names (if matched then m @ [filepath_Join dir n] else m))"

definition glob :: "state \<Rightarrow> path \<Rightarrow> string \<Rightarrow> path list \<Rightarrow> path list \<times> error option" where
  "glob st dir pattern matches =
     (case resolve st True symloop_max [] dir of
        Inl e \<Rightarrow> (matches, None)
      | Inr q \<Rightarrow> (case look st q of
                    Some (Dir pm) \<Rightarrow> glob_names dir pattern (children st q) matches
                  | _ \<Rightarrow> (matches, None)))"

fun glob_each :: "state \<Rightarrow> string \<Rightarrow> path list \<Rightarrow> path list \<Rightarrow> error + path list" where
  "glob_each st file [] matches = Inr matches"
| "glob_each st file (d # ds) matches =
     (case glob st d file matches of
        (m, Some err) \<Rightarrow> Inl err
      | (m, None) \<Rightarrow> glob_each st file ds m)"

definition pathSeparatorsLimit :: nat where "pathSeparatorsLimit = 10000"

fun globWithLimit :: "state \<Rightarrow> nat \<Rightarrow> string list \<Rightarrow> error + path list" where
  "globWithLimit st depth [] =
     (if depth = pathSeparatorsLimit then Inl ErrBadPattern else Inr [[]])"
| "globWithLimit st depth (file # rdir) =
     (if depth = pathSeparatorsLimit then Inl ErrBadPattern
      else (case filepath_Match (path_string (rev (file # rdir))) [] of
              Inl err \<Rightarrow> Inl err
            | Inr b \<Rightarrow>
                if \<not> hasMeta (path_string (rev (file # rdir))) then
                  (case os_Lstat st (rev (file # rdir)) of
                     Inl err \<Rightarrow> Inr []
                   | Inr fi \<Rightarrow> Inr [rev (file # rdir)])
                else if \<not> hasMeta (path_string (rev rdir)) then
                  (case glob st (rev rdir) file [] of
                     (m, Some err) \<Rightarrow> Inl err
                   | (m, None) \<Rightarrow> Inr m)
                else (case globWithLimit st (depth + 1) rdir of
                        Inl err \<Rightarrow> Inl err
                      | Inr ms \<Rightarrow> glob_each st file ms [])))"

definition filepath_Glob :: "state \<Rightarrow> path \<Rightarrow> error + path list" where
  "filepath_Glob st source = globWithLimit st 0 (''*'' # rev source)"

text \<open>\<^verbatim>\<open>os.Mkdir\<close>: the parent must resolve to a directory and the name must be free.\<close>

definition os_Mkdir :: "path \<Rightarrow> perm \<Rightarrow> state \<Rightarrow> state \<times> error option" where
  "os_Mkdir name pm st =
     (case resolve st False symloop_max [] name of
        Inl e \<Rightarrow> (st, Some e)
      | Inr q \<Rightarrow> (case look st q of
                    Some nd \<Rightarrow> (st, Some EEXIST)
                  | None \<Rightarrow> (put st q (Dir pm), None)))"

text \<open>
  \<^verbatim>\<open>os.MkdirAll\<close>: nothing to do when the path is a directory already; otherwise the
  parent first, then the directory itself, and a failure of \<^verbatim>\<open>Mkdir\<close> is forgiven when
  the directory is there after all.
\<close>

function os_MkdirAll :: "path \<Rightarrow> perm \<Rightarrow> state \<Rightarrow> state \<times> error option" where
  "os_MkdirAll p pm st =
     (case os_Stat st p of
        Inr dir \<Rightarrow> if node_IsDir dir then (st, None) else (st, Some ENOTDIR)
      | Inl err \<Rightarrow>
          (case (if p = [] then (st, None) else os_MkdirAll (butlast p) pm st) of
             (st1, Some e) \<Rightarrow> (st1, Some e)
           | (st1, None) \<Rightarrow>
               (case os_Mkdir p pm st1 of
                  (st2, None) \<Rightarrow> (st2, None)
                | (st2, Some e) \<Rightarrow>
                    (case os_Lstat st2 p of
                       Inr dir \<Rightarrow> if node_IsDir dir then (st2, None) else (st2, Some e)
                     | Inl err1 \<Rightarrow> (st2, Some e)))))"
  by pat_completeness auto
termination
  by (relation "measure (\<lambda>(p, pm, st). length p)") auto

declare os_MkdirAll.simps [simp del]

text \<open>\<^verbatim>\<open>ioutil.ReadFile\<close>: the bytes of the file the path resolves to.\<close>

definition ioutil_ReadFile :: "state \<Rightarrow> path \<Rightarrow> error + string" where
  "ioutil_ReadFile st name =
     (case resolve st True symloop_max [] name of
        Inl e \<Rightarrow> Inl e
      | Inr q \<Rightarrow> (case look st q of
                    None \<Rightarrow> Inl ENOENT
                  | Some (File pm bs) \<Rightarrow> Inr bs
                  | Some (Dir pm) \<Rightarrow> Inl EISDIR
                  | Some (Symlink pm t) \<Rightarrow> Inl ELOOP))"

text \<open>
  \<^verbatim>\<open>ioutil.WriteFile\<close> opens with \<^verbatim>\<open>O_WRONLY|O_CREATE|O_TRUNC\<close>: an existing file is
  truncated and keeps its permission bits, a missing one is created with the bits given.
\<close>

definition ioutil_WriteFile :: "path \<Rightarrow> string \<Rightarrow> perm \<Rightarrow> state \<Rightarrow> state \<times> error option" where
  "ioutil_WriteFile name contents pm st =
     (case resolve st True symloop_max [] name of
        Inl e \<Rightarrow> (st, Some e)
      | Inr q \<Rightarrow> (case look st q of
                    None \<Rightarrow> (put st q (File pm contents), None)
                  | Some (File pm0 bs) \<Rightarrow> (put st q (File pm0 contents), None)
                  | Some (Dir pm0) \<Rightarrow> (st, Some EISDIR)
                  | Some (Symlink pm0 t) \<Rightarrow> (st, Some ELOOP)))"

definition WriteFileWithSamePermissions ::
  "path \<Rightarrow> path \<Rightarrow> string \<Rightarrow> state \<Rightarrow> state \<times> error option" where
  "WriteFileWithSamePermissions source destination contents st =
     (case os_Stat st source of
        Inl err \<Rightarrow> (st, Some err)
      | Inr fileInfo \<Rightarrow> ioutil_WriteFile destination contents (Mode fileInfo) st)"

definition CopyFile :: "path \<Rightarrow> path \<Rightarrow> state \<Rightarrow> state \<times> error option" where
  "CopyFile source destination st =
     (case ioutil_ReadFile st source of
        Inl err \<Rightarrow> (st, Some err)
      | Inr contents \<Rightarrow> WriteFileWithSamePermissions source destination contents st)"

text \<open>
  \<^verbatim>\<open>os.RemoveAll\<close> on the string the program holds, as the library has it on Unix. The
  empty string and a path that is not there are no error; a string ending in \<^verbatim>\<open>/.\<close> is
  refused. A relative string starts at the working directory, empty components are
  skipped, and the last component is not followed. A path through a regular file is
  \<^verbatim>\<open>ENOTDIR\<close>. The directory that a last component \<^verbatim>\<open>..\<close> (or \<^verbatim>\<open>.\<close> before a slash) names
  is emptied, and then cannot be removed under that name; so is the root.
\<close>

definition endsWithDot :: "string \<Rightarrow> bool" where
  "endsWithDot name =
     (name = ''.'' \<or> (2 \<le> length name \<and> last name = CHR ''.'' \<and> last (butlast name) = Separator))"

definition remove_below :: "state \<Rightarrow> path \<Rightarrow> state" where
  "remove_below st p = st\<lparr>entries := filter (\<lambda>(q, nd). \<not> strict_prefix p q) (entries st)\<rparr>"

definition os_RemoveAll :: "string \<Rightarrow> state \<Rightarrow> state \<times> error option" where
  "os_RemoveAll name st =
     (if name = [] then (st, None)
      else if endsWithDot name then (st, Some EINVAL)
      else (let toks = filter (\<lambda>c. c \<noteq> []) (strings_Split name Separator)
            in case resolve st False symloop_max
                      (if hd name = Separator then [] else cwd st) toks of
                 Inl e \<Rightarrow> if e = ENOENT then (st, None) else (st, Some e)
               | Inr q \<Rightarrow>
                   if toks \<noteq> [] \<and> last toks = ''..'' then (remove_below st q, Some ENOTEMPTY)
                   else if toks \<noteq> [] \<and> last toks = ''.'' then (remove_below st q, Some EINVAL)
                   else if q = [] then (remove_tree st q, Some EBUSY)
                   else (remove_tree st q, None)))"

section \<open>The manifest encoding\<close>

text \<open>
  The manifest is written with \<^verbatim>\<open>encoding/gob\<close>. For a string, each \<^verbatim>\<open>Encode\<close> sends
  one message: the byte count of the rest, the type id of \<^verbatim>\<open>string\<close> (6, sent as the
  signed integer 12), a zero byte for a value that is not a struct, the length of the
  string and its bytes. An unsigned integer below 128 is one byte; otherwise its
  big-endian bytes follow a byte holding their negated count.

  The decoder reads one message and, in it, a value of type \<^verbatim>\<open>string\<close>. Reading an
  integer where no byte is left gives \<^verbatim>\<open>io.EOF\<close>, at the end of the file as inside a
  message that is too short; a file that ends inside a count or before the end of a
  message gives \<^verbatim>\<open>io.ErrUnexpectedEOF\<close>. Bytes of a message after the string are
  dropped. Every other type id is an error here: one of another type cannot be stored
  in a string, and messages that define a type, which the program never writes, are not
  modelled.
\<close>

fun be_bytes :: "nat \<Rightarrow> string" where
  "be_bytes n = (if n = 0 then [] else be_bytes (n div 256) @ [char_of (n mod 256)])"

declare be_bytes.simps [simp del]

definition be_val :: "string \<Rightarrow> nat" where
  "be_val bs = foldl (\<lambda>a c. a * 256 + of_char c) 0 bs"

definition gob_uint :: "nat \<Rightarrow> string" where
  "gob_uint n = (if n \<le> 127 then [char_of n]
                 else char_of (256 - length (be_bytes n)) # be_bytes n)"

definition tooBig :: nat where "tooBig = 2 ^ 33"

definition gob_payload :: "string \<Rightarrow> string" where
  "gob_payload s = gob_uint 12 @ gob_uint 0 @ gob_uint (length s) @ s"

definition gob_Encode :: "string \<Rightarrow> error + string" where
  "gob_Encode s =
     (if length (gob_payload s) \<ge> tooBig then Inl ErrGob
      else Inr (gob_uint (length (gob_payload s)) @ gob_payload s))"

definition decode_uint :: "string \<Rightarrow> error + nat \<times> string" where
  "decode_uint bs =
     (case bs of
        [] \<Rightarrow> Inl EOF
      | b # rest \<Rightarrow>
          (if (of_char b :: nat) \<le> 127 then Inr (of_char b, rest)
           else (let k = 256 - (of_char b :: nat)
                 in if k > 8 then Inl ErrGob
                    else if length rest < k then Inl ErrUnexpectedEOF
                    else Inr (be_val (take k rest), drop k rest))))"

definition decode_string_message :: "string \<Rightarrow> error + string" where
  "decode_string_message msg =
     (case decode_uint msg of
        Inl e \<Rightarrow> Inl e
      | Inr (tid, r1) \<Rightarrow>
          if tid \<noteq> 12 then Inl ErrGob
          else (case decode_uint r1 of
                  Inl e \<Rightarrow> Inl e
                | Inr (delta, r2) \<Rightarrow>
                    if delta \<noteq> 0 then Inl ErrGob
                    else (case decode_uint r2 of
                            Inl e \<Rightarrow> Inl e
                          | Inr (len, r3) \<Rightarrow>
                              if length r3 < len then Inl ErrGob else Inr (take len r3))))"

datatype decoded = DecEOF | DecErr error | DecValue string string

text \<open>\<^verbatim>\<open>decoder.Decode(&path)\<close> on the bytes still unread: \<^verbatim>\<open>io.EOF\<close>, an error, or the
  next string and the bytes after its message.\<close>

definition gob_Decode :: "string \<Rightarrow> decoded" where
  "gob_Decode bs =
     (case decode_uint bs of
        Inl e \<Rightarrow> if e = EOF then DecEOF else DecErr e
      | Inr (n, rest) \<Rightarrow>
          if n \<ge> tooBig then DecErr ErrGob
          else if length rest < n then DecErr ErrUnexpectedEOF
          else (case decode_string_message (take n rest) of
                  Inl e \<Rightarrow> if e = EOF then DecEOF else DecErr e
                | Inr s \<Rightarrow> DecValue s (drop n rest)))"

section \<open>The manifest\<close>

text \<open>
  An open file is the canonical path it was opened at and its offset; \<^verbatim>\<open>opened\<close> in the
  state lists the files that are open. A write through the handle goes to the file at that
  path at the handle's offset (the file is not replaced under an open handle by anything
  but truncation). The \<^verbatim>\<open>encoder\<close> field writes straight to the handle and is not kept
  apart from it.
\<close>

record os_File =
  hpath :: path
  hoffset :: nat

record fileManifest =
  Path :: path
  fileHandle :: "os_File option"

definition newFileManifest :: "path \<Rightarrow> fileManifest" where
  "newFileManifest p = \<lparr>Path = p, fileHandle = None\<rparr>"

definition os_OpenFile_create_trunc :: "path \<Rightarrow> perm \<Rightarrow> state \<Rightarrow> state \<times> (error + os_File)" where
  "os_OpenFile_create_trunc name pm st =
     (case resolve st True symloop_max [] name of
        Inl e \<Rightarrow> (st, Inl e)
      | Inr q \<Rightarrow> (case look st q of
                    None \<Rightarrow> ((put st q (File pm []))\<lparr>opened := q # opened st\<rparr>,
                               Inr \<lparr>hpath = q, hoffset = 0\<rparr>)
                  | Some (File pm0 bs) \<Rightarrow> ((put st q (File pm0 []))\<lparr>opened := q # opened st\<rparr>,
                               Inr \<lparr>hpath = q, hoffset = 0\<rparr>)
                  | Some (Dir pm0) \<Rightarrow> (st, Inl EISDIR)
                  | Some (Symlink pm0 t) \<Rightarrow> (st, Inl ELOOP)))"

text \<open>\<^verbatim>\<open>os.Open\<close> for reading, with what reading the file will give: a directory can be
  opened, and reading it fails.\<close>

definition os_Open :: "path \<Rightarrow> state \<Rightarrow> state \<times> (error + os_File \<times> (error + string))" where
  "os_Open name st =
     (case resolve st True symloop_max [] name of
        Inl e \<Rightarrow> (st, Inl e)
      | Inr q \<Rightarrow> (case look st q of
                    None \<Rightarrow> (st, Inl ENOENT)
                  | Some (File pm bs) \<Rightarrow>
                      (st\<lparr>opened := q # opened st\<rparr>, Inr (\<lparr>hpath = q, hoffset = 0\<rparr>, Inr bs))
                  | Some (Dir pm) \<Rightarrow>
                      (st\<lparr>opened := q # opened st\<rparr>, Inr (\<lparr>hpath = q, hoffset = 0\<rparr>, Inl EISDIR))
                  | Some (Symlink pm t) \<Rightarrow> (st, Inl ELOOP)))"

definition os_File_Close :: "os_File \<Rightarrow> state \<Rightarrow> state \<times> error option" where
  "os_File_Close h st =
     (if hpath h \<in> set (opened st) then (st\<lparr>opened := remove1 (hpath h) (opened st)\<rparr>, None)
      else (st, Some ErrClosed))"

definition write_at :: "string \<Rightarrow> nat \<Rightarrow> string \<Rightarrow> string" where
  "write_at c off bs =
     take off (c @ replicate (off - length c) (CHR 0x00)) @ bs @ drop (off + length bs) c"

definition os_File_Write :: "os_File \<Rightarrow> string \<Rightarrow> state \<Rightarrow> state" where
  "os_File_Write h bs st =
     (case look st (hpath h) of
        Some (File pm c) \<Rightarrow> put st (hpath h) (File pm (write_at c (hoffset h) bs))
      | _ \<Rightarrow> st)"

text \<open>The loop of \<^verbatim>\<open>Clean\<close>: decode the paths one by one and remove each.\<close>

lemma decode_uint_shorter: "decode_uint bs = Inr (n, rest) \<Longrightarrow> length rest < length bs"
  by (auto simp: decode_uint_def Let_def split: list.splits if_splits)

lemma gob_Decode_shorter: "gob_Decode bs = DecValue p rest \<Longrightarrow> length rest < length bs"
  by (auto simp: gob_Decode_def split: if_splits sum.splits dest!: decode_uint_shorter)

function clean_loop :: "string \<Rightarrow> state \<Rightarrow> state \<times> error option" where
  "clean_loop bs st =
     (case gob_Decode bs of
        DecEOF \<Rightarrow> (st, None)
      | DecErr err \<Rightarrow> (st, Some err)
      | DecValue p rest \<Rightarrow>
          (case os_RemoveAll p st of
             (st1, Some err) \<Rightarrow> (st1, Some err)
           | (st1, None) \<Rightarrow> clean_loop rest st1))"
  by pat_completeness auto
termination
  by (relation "measure (\<lambda>(bs, st). length bs)") (auto dest: gob_Decode_shorter)

declare clean_loop.simps [simp del]

definition Clean :: "fileManifest \<Rightarrow> state \<Rightarrow> state \<times> error option" where
  "Clean f st =
     (if \<not> FileExists st (Path f) then (st, None)
      else (case os_Open (Path f) st of
              (st1, Inl err) \<Rightarrow> (st1, Some err)
            | (st1, Inr (file, Inl err)) \<Rightarrow> (st1, Some err)
            | (st1, Inr (file, Inr bs)) \<Rightarrow>
                (case clean_loop bs st1 of
                   (st2, Some err) \<Rightarrow> (st2, Some err)
                 | (st2, None) \<Rightarrow>
                     (case os_File_Close file st2 of
                        (st3, Some err) \<Rightarrow> (st3, Some err)
                      | (st3, None) \<Rightarrow> os_RemoveAll (path_string (Path f)) st3))))"

definition Create :: "fileManifest \<Rightarrow> state \<Rightarrow> state \<times> fileManifest \<times> error option" where
  "Create f st =
     (case os_OpenFile_create_trunc (Path f) perm_0644 st of
        (st1, Inl err) \<Rightarrow> (st1, f, Some err)
      | (st1, Inr h) \<Rightarrow> (st1, f\<lparr>fileHandle := Some h\<rparr>, None))"

definition AddFile :: "fileManifest \<Rightarrow> string \<Rightarrow> state \<Rightarrow> state \<times> fileManifest \<times> error option" where
  "AddFile f file st =
     (case fileHandle f of
        None \<Rightarrow> (st, f, Some ErrInvalid)
      | Some h \<Rightarrow>
          (case gob_Encode file of
             Inl err \<Rightarrow> (st, f, Some err)
           | Inr msg \<Rightarrow> (os_File_Write h msg st,
                         f\<lparr>fileHandle := Some (h\<lparr>hoffset := hoffset h + length msg\<rparr>)\<rparr>, None)))"

definition Close :: "fileManifest \<Rightarrow> state \<Rightarrow> state \<times> error option" where
  "Close f st =
     (case fileHandle f of
        None \<Rightarrow> (st, Some ErrInvalid)
      | Some h \<Rightarrow> os_File_Close h st)"

section \<open>Mirroring a directory\<close>

text \<open>
  \<^verbatim>\<open>CopyFolderContentsWithFilter\<close> and its loop over the children. The recursion follows
  the directory tree as the filesystem has it at that moment, through symbolic links too,
  and need not end: \<^verbatim>\<open>fuel\<close> bounds the depth of the calls, and \<^verbatim>\<open>None\<close> is a run that
  does not return within it. A run that returns gives the state it leaves and the error,
  if any.
\<close>

function CopyFolderContentsWithFilter ::
    "nat \<Rightarrow> path \<Rightarrow> path \<Rightarrow> string \<Rightarrow> (string \<Rightarrow> bool) \<Rightarrow> state \<Rightarrow> (state \<times> error option) option"
  and copy_loop ::
    "nat \<Rightarrow> path list \<Rightarrow> path \<Rightarrow> path \<Rightarrow> string \<Rightarrow> (string \<Rightarrow> bool) \<Rightarrow> fileManifest \<Rightarrow> state
       \<Rightarrow> (state \<times> fileManifest \<times> error option) option"
where
  "CopyFolderContentsWithFilter fuel source destination manifestFile flt st =
     (if fuel = 0 then None
      else (case Clean (newFileManifest (filepath_Join destination manifestFile)) st of
              (st1, Some err) \<Rightarrow> Some (st1, Some err)
            | (st1, None) \<Rightarrow>
                (case Create (newFileManifest (filepath_Join destination manifestFile)) st1 of
                   (st2, manifest, Some err) \<Rightarrow> Some (st2, Some err)
                 | (st2, manifest, None) \<Rightarrow>
                     (case filepath_Glob st2 source of
                        Inl err \<Rightarrow> Some (st2, Some err)
                      | Inr files \<Rightarrow>
                          (case copy_loop (fuel - 1) files source destination
                                  manifestFile flt manifest st2 of
                             None \<Rightarrow> None
                           | Some (st3, manifest', Some err) \<Rightarrow> Some (st3, Some err)
                           | Some (st3, manifest', None) \<Rightarrow> Some (Close manifest' st3))))))"
| "copy_loop fuel [] source destination manifestFile flt manifest st =
     Some (st, manifest, None)"
| "copy_loop fuel (file # files) source destination manifestFile flt manifest st =
     (if \<not> flt (GetPathRelativeTo file source)
      then copy_loop fuel files source destination manifestFile flt manifest st
      else if IsDir st file then
        (case os_Lstat st file of
           Inl err \<Rightarrow> Some (st, manifest, Some err)
         | Inr info \<Rightarrow>
             (case os_MkdirAll (filepath_Join destination (GetPathRelativeTo file source))
                     (Mode info) st of
                (st1, Some err) \<Rightarrow> Some (st1, manifest, Some err)
              | (st1, None) \<Rightarrow>
                  (case CopyFolderContentsWithFilter fuel file
                          (filepath_Join destination (GetPathRelativeTo file source))
                          manifestFile flt st1 of
                     None \<Rightarrow> None
                   | Some (st2, Some err) \<Rightarrow> Some (st2, manifest, Some err)
                   | Some (st2, None) \<Rightarrow>
                       copy_loop fuel files source destination manifestFile flt manifest st2)))
      else
        (case os_MkdirAll (filepath_Dir (filepath_Join destination (GetPathRelativeTo file source)))
                perm_0700 st of
           (st1, Some err) \<Rightarrow> Some (st1, manifest, Some err)
         | (st1, None) \<Rightarrow>
             (case CopyFile file (filepath_Join destination (GetPathRelativeTo file source)) st1 of
                (st2, Some err) \<Rightarrow> Some (st2, manifest, Some err)
              | (st2, None) \<Rightarrow>
                  (case AddFile manifest
                          (path_string (filepath_Join destination (GetPathRelativeTo file source)))
                          st2 of
                     (st3, manifest', Some err) \<Rightarrow> Some (st3, manifest', Some err)
                   | (st3, manifest', None) \<Rightarrow>
                       copy_loop fuel files source destination manifestFile flt manifest' st3))))"
  by pat_completeness auto
termination
  by (relation "measures
        [\<lambda>x. case x of Inl (fuel, r) \<Rightarrow> fuel | Inr (fuel, r) \<Rightarrow> fuel,
         \<lambda>x. case x of Inl r \<Rightarrow> 0 | Inr (fuel, fs, r) \<Rightarrow> Suc (length fs)]")
     auto

declare CopyFolderContentsWithFilter.simps [simp del]
declare copy_loop.simps [simp del]

text \<open>\<^verbatim>\<open>CopyFolderContents\<close> passes the default filter on.\<close>

definition CopyFolderContents ::
    "nat \<Rightarrow> path \<Rightarrow> path \<Rightarrow> string \<Rightarrow> state \<Rightarrow> (state \<times> error option) option" where
  "CopyFolderContents fuel source destination manifestFile st =
     CopyFolderContentsWithFilter fuel source destination manifestFile
       (\<lambda>p. \<not> PathContainsHiddenFileOrFolder p) st"

section \<open>The default filter\<close>

lemma strings_Split_nonempty: "strings_Split s sep \<noteq> []"
  by (induction s) (auto split: list.splits)

lemma strings_Split_no_sep: "sep \<notin> set c \<Longrightarrow> strings_Split c sep = [c]"
  by (induction c) auto

lemma strings_Split_append:
  "sep \<notin> set c \<Longrightarrow> strings_Split (c @ sep # s) sep = c # strings_Split s sep"
  by (induction c) auto

lemma strings_Split_join:
  "cs \<noteq> [] \<Longrightarrow> \<forall>c\<in>set cs. Separator \<notin> set c \<Longrightarrow>
   strings_Split (join_components cs) Separator = cs"
proof (induction cs rule: join_components.induct)
  case 1
  then show ?case by simp
next
  case (2 c)
  then show ?case by (simp add: strings_Split_no_sep)
next
  case (3 c d cs)
  then show ?case by (simp add: strings_Split_append)
qed

lemma hidden_loop_iff: "hidden_loop cs = (\<exists>c\<in>set cs. hidden_component c)"
proof (induction cs)
  case Nil
  then show ?case by simp
next
  case (Cons c cs)
  have "(strings_HasPrefix c ''.'' \<and> c \<noteq> ''.'' \<and> c \<noteq> ''..'') = hidden_component c"
    by (cases c) (auto simp: strings_HasPrefix_def hidden_component_def)
  with Cons show ?case by auto
qed

text \<open>
  C9. The default filter rejects a relative path exactly when one of its components starts
  with a dot and is neither \<^verbatim>\<open>.\<close> nor \<^verbatim>\<open>..\<close>; a path all of whose components avoid
  that pattern is included.
\<close>

theorem default_filter_hidden:
  assumes "cs \<noteq> []" and "\<forall>c\<in>set cs. Separator \<notin> set c"
  shows "default_filter (join_components cs) = (\<not> (\<exists>c\<in>set cs. hidden_component c))"
  using assms by (simp add: default_filter_def PathContainsHiddenFileOrFolder_def
      strings_Split_join hidden_loop_iff)

theorem default_filter_hidden_witness:
  "default_filter ''sub/.git/config'' = False \<and> default_filter ''../sub/./a.txt'' = True"
proof -
  have a: "join_components [''sub'', ''.git'', ''config''] = ''sub/.git/config''"
    by (simp add: Separator_def)
  have b: "join_components [''..'', ''sub'', ''.'', ''a.txt''] = ''../sub/./a.txt''"
    by (simp add: Separator_def)
  have "default_filter (join_components [''sub'', ''.git'', ''config'']) = False"
    using default_filter_hidden [of "[''sub'', ''.git'', ''config'']"]
    by (simp add: Separator_def hidden_component_def)
  moreover have "default_filter (join_components [''..'', ''sub'', ''.'', ''a.txt'']) = True"
    using default_filter_hidden [of "[''..'', ''sub'', ''.'', ''a.txt'']"]
    by (simp add: Separator_def hidden_component_def)
  ultimately show ?thesis by (simp only: a b)
qed

section \<open>Well-formed filesystems\<close>

text \<open>
  The general theorems are about filesystems without symbolic links: every path that exists
  has valid component names and sits in a directory. There every path resolves to itself,
  and the operations above are updates and removals of single entries or subtrees.
\<close>

definition valid_name :: "string \<Rightarrow> bool" where
  "valid_name n = (n \<noteq> [] \<and> n \<noteq> ''.'' \<and> n \<noteq> ''..'' \<and> Separator \<notin> set n)"

definition valid_path :: "path \<Rightarrow> bool" where
  "valid_path p = (\<forall>c\<in>set p. valid_name c)"

definition dirp :: "state \<Rightarrow> path \<Rightarrow> bool" where
  "dirp st p = (\<exists>pm. look st p = Some (Dir pm))"

definition good :: "state \<Rightarrow> bool" where
  "good st = (\<forall>p nd. look st p = Some nd \<longrightarrow>
       valid_path p \<and> (\<forall>pm t. nd \<noteq> Symlink pm t) \<and> (p \<noteq> [] \<longrightarrow> dirp st (butlast p)))"

lemma valid_path_simps [simp]:
  "valid_path []" "valid_path (c # p) = (valid_name c \<and> valid_path p)"
  "valid_path (p @ q) = (valid_path p \<and> valid_path q)"
  by (auto simp: valid_path_def)

lemma valid_path_butlast: "valid_path p \<Longrightarrow> valid_path (butlast p)"
  by (auto simp: valid_path_def dest: in_set_butlastD)

lemma look_root [simp]: "look st [] = Some (Dir perm_0755)"
  by (simp add: look_def)

lemma dirp_root [simp]: "dirp st []"
  by (simp add: dirp_def)

lemma look_put: "p \<noteq> [] \<Longrightarrow> look (put st p nd) q = (if q = p then Some nd else look st q)"
  by (simp add: look_def put_def update_conv')

lemma map_of_filter_key:
  "map_of (filter (\<lambda>(k, v). P k) xs) k = (if P k then map_of xs k else None)"
  by (induction xs) auto

lemma look_remove_tree:
  "p \<noteq> [] \<Longrightarrow> look (remove_tree st p) q = (if prefix p q then None else look st q)"
  using map_of_filter_key [of "\<lambda>q. \<not> prefix p q" "entries st" q]
  by (auto simp: look_def remove_tree_def)

lemma put_fields [simp]:
  "opened (put st p nd) = opened st" "cwd (put st p nd) = cwd st"
  by (simp_all add: put_def)

lemma remove_tree_fields [simp]:
  "opened (remove_tree st p) = opened st" "cwd (remove_tree st p) = cwd st"
  by (simp_all add: remove_tree_def)

lemma look_opened_update [simp]: "look (st\<lparr>opened := x\<rparr>) = look st"
  by (rule ext) (simp add: look_def)

lemma children_set:
  "set (children st d) = {n. look st (d @ [n]) \<noteq> None}"
proof -
  have "set (children st d) = (\<lambda>(q, nd). last q) ` {x \<in> set (entries st). case x of (q, nd) \<Rightarrow> q \<noteq> [] \<and> butlast q = d}"
    by (simp add: children_def)
  also have "\<dots> = {n. map_of (entries st) (d @ [n]) \<noteq> None}"
  proof (rule set_eqI, rule iffI)
    fix n assume "n \<in> (\<lambda>(q, nd). last q) ` {x \<in> set (entries st). case x of (q, nd) \<Rightarrow> q \<noteq> [] \<and> butlast q = d}"
    then obtain q nd where q: "(q, nd) \<in> set (entries st)" "q \<noteq> []" "butlast q = d" "n = last q"
      by auto
    then have "q = d @ [n]" by (metis append_butlast_last_id)
    with q(1) have "d @ [n] \<in> fst ` set (entries st)" by force
    then show "n \<in> {n. map_of (entries st) (d @ [n]) \<noteq> None}"
      by (simp add: map_of_eq_None_iff)
  next
    fix n assume "n \<in> {n. map_of (entries st) (d @ [n]) \<noteq> None}"
    then obtain nd where "map_of (entries st) (d @ [n]) = Some nd" by auto
    then have "(d @ [n], nd) \<in> set (entries st)" by (rule map_of_SomeD)
    then show "n \<in> (\<lambda>(q, nd). last q) ` {x \<in> set (entries st). case x of (q, nd) \<Rightarrow> q \<noteq> [] \<and> butlast q = d}"
      by (force simp: image_iff)
  qed
  finally show ?thesis by (simp add: look_def)
qed

lemma children_sorted_distinct: "sorted (children st d) \<and> distinct (children st d)"
  by (simp add: children_def)

lemma children_cong:
  assumes "\<forall>n. (look st' (d' @ [n]) = None) = (look st (d @ [n]) = None)"
  shows "children st' d' = children st d"
proof -
  have "set (children st' d') = set (children st d)"
    using assms by (simp add: children_set)
  then show ?thesis
    using children_sorted_distinct [of st' d'] children_sorted_distinct [of st d]
    by (metis sorted_distinct_set_unique)
qed

lemma good_ancestor:
  "good st \<Longrightarrow> look st (p @ r) = Some nd \<Longrightarrow> r \<noteq> [] \<Longrightarrow> dirp st p"
proof (induction r arbitrary: nd rule: rev_induct)
  case Nil
  then show ?case by simp
next
  case (snoc x r)
  from snoc.prems(1,2) have d: "dirp st (p @ r)"
    unfolding good_def by (metis butlast_snoc append_assoc snoc_eq_iff_butlast)
  show ?case
  proof (cases "r = []")
    case True
    with d show ?thesis by simp
  next
    case False
    from d obtain pm where "look st (p @ r) = Some (Dir pm)" by (auto simp: dirp_def)
    from snoc.IH [OF snoc.prems(1) this False] show ?thesis .
  qed
qed

lemma good_absent_below:
  "good st \<Longrightarrow> \<not> dirp st p \<Longrightarrow> r \<noteq> [] \<Longrightarrow> look st (p @ r) = None"
  using good_ancestor by (cases "look st (p @ r)") auto

lemma good_valid: "good st \<Longrightarrow> look st p = Some nd \<Longrightarrow> valid_path p"
  by (auto simp: good_def)

lemma good_no_symlink: "good st \<Longrightarrow> look st p \<noteq> Some (Symlink pm t)"
  by (auto simp: good_def)

lemma good_parent: "good st \<Longrightarrow> look st p = Some nd \<Longrightarrow> p \<noteq> [] \<Longrightarrow> dirp st (butlast p)"
  by (auto simp: good_def)

lemma valid_name_not_special:
  "valid_name c \<Longrightarrow> c \<noteq> [] \<and> c \<noteq> ''.'' \<and> c \<noteq> ''..''"
  by (simp add: valid_name_def)

lemma resolve_good_aux:
  assumes g: "good st"
  shows "valid_path rest \<Longrightarrow> dirp st cur \<Longrightarrow>
     (rest = [] \<longrightarrow> resolve st fl k cur rest = Inr cur) \<and>
     (rest \<noteq> [] \<longrightarrow> dirp st (cur @ butlast rest) \<longrightarrow> resolve st fl k cur rest = Inr (cur @ rest)) \<and>
     (rest \<noteq> [] \<longrightarrow> \<not> dirp st (cur @ butlast rest) \<longrightarrow>
        (\<exists>e. resolve st fl k cur rest = Inl e \<and> e \<noteq> ELOOP))"
proof (induction rest arbitrary: cur)
  case Nil
  then show ?case by (simp add: resolve.simps)
next
  case (Cons c rest)
  from Cons.prems have vc: "valid_name c" and vr: "valid_path rest" by simp_all
  note ns = valid_name_not_special [OF vc]
  show ?case
  proof (cases "look st (cur @ [c])")
    case None
    then have nd: "\<not> dirp st (cur @ [c])" by (simp add: dirp_def)
    show ?thesis
    proof (cases "rest = []")
      case True
      with None ns Cons.prems show ?thesis by (simp add: resolve.simps)
    next
      case False
      have "look st ((cur @ [c]) @ butlast rest) = None"
      proof (cases "butlast rest = []")
        case True
        with None show ?thesis by simp
      next
        case False
        from good_absent_below [OF g nd False] show ?thesis .
      qed
      then have "\<not> dirp st (cur @ butlast (c # rest))"
        using False by (simp add: dirp_def)
      with None ns False show ?thesis by (simp add: resolve.simps)
    qed
  next
    case (Some nd)
    show ?thesis
    proof (cases nd)
      case (File pm bs)
      with Some have nd: "\<not> dirp st (cur @ [c])" by (simp add: dirp_def)
      show ?thesis
      proof (cases "rest = []")
        case True
        with Some File ns Cons.prems show ?thesis by (simp add: resolve.simps)
      next
        case False
        have "\<not> dirp st ((cur @ [c]) @ butlast rest)"
        proof (cases "butlast rest = []")
          case True
          with nd show ?thesis by simp
        next
          case False
          from good_absent_below [OF g nd False] show ?thesis by (simp add: dirp_def)
        qed
        then have "\<not> dirp st (cur @ butlast (c # rest))"
          using False by simp
        with Some File ns False show ?thesis by (simp add: resolve.simps)
      qed
    next
      case (Dir pm)
      with Some have d: "dirp st (cur @ [c])" by (simp add: dirp_def)
      from Cons.IH [OF vr d] Some Dir ns d Cons.prems(2) show ?thesis
        by (cases "rest = []") (simp_all add: resolve.simps)
    next
      case (Symlink pm t)
      with Some good_no_symlink [OF g] show ?thesis by blast
    qed
  qed
qed

lemma resolve_good:
  assumes "good st" "valid_path p" "p \<noteq> []" "dirp st (butlast p)"
  shows "resolve st fl k [] p = Inr p"
  using resolve_good_aux [OF assms(1), of p "[]" fl k] assms by simp

lemma resolve_good_err:
  assumes "good st" "valid_path p" "p \<noteq> []" "\<not> dirp st (butlast p)"
  shows "\<exists>e. resolve st fl k [] p = Inl e \<and> e \<noteq> ELOOP"
  using resolve_good_aux [OF assms(1), of p "[]" fl k] assms by simp


lemma os_Stat_Some: "good st \<Longrightarrow> look st p = Some nd \<Longrightarrow> os_Stat st p = Inr nd"
proof (cases "p = []")
  case True
  assume "look st p = Some nd"
  with True show ?thesis by (simp add: os_Stat_def resolve.simps)
next
  case False
  assume g: "good st" and l: "look st p = Some nd"
  from resolve_good [OF g good_valid [OF g l] False good_parent [OF g l False]] l
  show ?thesis by (simp add: os_Stat_def)
qed

lemma os_Stat_None:
  assumes "good st" "valid_path p" "look st p = None"
  shows "\<exists>e. os_Stat st p = Inl e"
proof -
  from assms(3) have ne: "p \<noteq> []" by auto
  show ?thesis
  proof (cases "dirp st (butlast p)")
    case True
    from resolve_good [OF assms(1,2) ne True] assms(3) show ?thesis by (simp add: os_Stat_def)
  next
    case False
    from resolve_good_err [OF assms(1,2) ne False, of True symloop_max] show ?thesis
      by (auto simp: os_Stat_def)
  qed
qed

lemma os_Lstat_Some: "good st \<Longrightarrow> look st p = Some nd \<Longrightarrow> os_Lstat st p = Inr nd"
proof (cases "p = []")
  case True
  assume "look st p = Some nd"
  with True show ?thesis by (simp add: os_Lstat_def resolve.simps)
next
  case False
  assume g: "good st" and l: "look st p = Some nd"
  from resolve_good [OF g good_valid [OF g l] False good_parent [OF g l False]] l
  show ?thesis by (simp add: os_Lstat_def)
qed

lemma IsDir_good: "good st \<Longrightarrow> valid_path p \<Longrightarrow> IsDir st p = dirp st p"
proof (cases "look st p")
  case None
  assume "good st" "valid_path p"
  from os_Stat_None [OF this None] None show ?thesis by (auto simp: IsDir_def dirp_def)
next
  case (Some nd)
  assume "good st"
  from os_Stat_Some [OF this Some] Some show ?thesis by (cases nd) (auto simp: IsDir_def dirp_def)
qed

lemma FileExists_good: "good st \<Longrightarrow> valid_path p \<Longrightarrow> FileExists st p = (look st p \<noteq> None)"
proof (cases "look st p")
  case None
  assume "good st" "valid_path p"
  from os_Stat_None [OF this None] None show ?thesis by (auto simp: FileExists_def)
next
  case (Some nd)
  assume "good st"
  from os_Stat_Some [OF this Some] Some show ?thesis by (auto simp: FileExists_def)
qed

lemma resolve_good_dir:
  assumes "good st" "valid_path p" "dirp st p"
  shows "resolve st fl k [] p = Inr p"
proof (cases "p = []")
  case True
  then show ?thesis by (simp add: resolve.simps)
next
  case False
  from assms(3) obtain pm where "look st p = Some (Dir pm)" by (auto simp: dirp_def)
  from resolve_good [OF assms(1,2) False good_parent [OF assms(1) this False]] show ?thesis .
qed

lemma ioutil_ReadFile_good:
  assumes "good st" "valid_path p" "ioutil_ReadFile st p = Inr c"
  shows "\<exists>pm. look st p = Some (File pm c)"
proof (cases "p = []")
  case True
  with assms(3) show ?thesis by (simp add: ioutil_ReadFile_def resolve.simps)
next
  case False
  show ?thesis
  proof (cases "dirp st (butlast p)")
    case True
    from resolve_good [OF assms(1,2) False True] assms(3) show ?thesis
      by (auto simp: ioutil_ReadFile_def split: option.splits node.splits)
  next
    case nd: False
    from resolve_good_err [OF assms(1,2) False nd, of True symloop_max] assms(3) show ?thesis
      by (auto simp: ioutil_ReadFile_def)
  qed
qed

lemma ioutil_WriteFile_good:
  assumes "good st" "valid_path p" "p \<noteq> []" "ioutil_WriteFile p c pm st = (st', None)"
  shows "dirp st (butlast p) \<and> \<not> dirp st p \<and>
         st' = put st p (File (case look st p of Some (File pm0 bs) \<Rightarrow> pm0 | _ \<Rightarrow> pm) c)"
proof (cases "dirp st (butlast p)")
  case True
  from resolve_good [OF assms(1,2,3) True] assms(4) show ?thesis
    using True by (auto simp: ioutil_WriteFile_def dirp_def split: option.splits node.splits)
next
  case False
  from resolve_good_err [OF assms(1,2,3) False, of True symloop_max] assms(4) show ?thesis
    by (auto simp: ioutil_WriteFile_def)
qed

lemma CopyFile_good:
  assumes "good st" "valid_path s" "valid_path d" "d \<noteq> []" "CopyFile s d st = (st', None)"
  shows "\<exists>pm c. look st s = Some (File pm c) \<and> dirp st (butlast d) \<and> \<not> dirp st d \<and>
         st' = put st d (File (case look st d of Some (File pm0 bs) \<Rightarrow> pm0 | _ \<Rightarrow> pm) c)"
proof -
  from assms(5) obtain c where rd: "ioutil_ReadFile st s = Inr c"
    and w: "WriteFileWithSamePermissions s d c st = (st', None)"
    by (auto simp: CopyFile_def split: sum.splits)
  from ioutil_ReadFile_good [OF assms(1,2) rd] obtain pm where l: "look st s = Some (File pm c)"
    by auto
  from os_Stat_Some [OF assms(1) l] w have "ioutil_WriteFile d c pm st = (st', None)"
    by (simp add: WriteFileWithSamePermissions_def)
  from ioutil_WriteFile_good [OF assms(1,3,4) this] l show ?thesis by auto
qed

lemma os_MkdirAll_existing: "good st \<Longrightarrow> dirp st p \<Longrightarrow> os_MkdirAll p pm st = (st, None)"
  using os_Stat_Some [of st p] by (subst os_MkdirAll.simps) (auto simp: dirp_def)

lemma os_MkdirAll_good:
  assumes "good st" "valid_path p" "p \<noteq> []" "dirp st (butlast p)"
    "os_MkdirAll p pm st = (st', None)"
  shows "(dirp st p \<and> st' = st) \<or> (look st p = None \<and> st' = put st p (Dir pm))"
proof (cases "look st p")
  case None
  from os_Stat_None [OF assms(1,2) None] obtain e where e: "os_Stat st p = Inl e" by auto
  from resolve_good [OF assms(1,2,3,4)] have r: "resolve st False symloop_max [] p = Inr p" .
  from assms(5) e os_MkdirAll_existing [OF assms(1,4), of pm] r None assms(3) show ?thesis
    by (subst (asm) os_MkdirAll.simps) (simp add: os_Mkdir_def)
next
  case (Some nd)
  from os_Stat_Some [OF assms(1) Some] assms(5) Some show ?thesis
    by (subst (asm) os_MkdirAll.simps) (cases nd; auto simp: dirp_def split: if_splits)
qed

lemma good_put:
  assumes "good st" "valid_path p" "p \<noteq> []" "dirp st (butlast p)" "\<not> dirp st p"
    "\<forall>pm t. nd \<noteq> Symlink pm t"
  shows "good (put st p nd)"
  unfolding good_def
proof (intro allI impI)
  fix q x assume l: "look (put st p nd) q = Some x"
  show "valid_path q \<and> (\<forall>pm t. x \<noteq> Symlink pm t) \<and> (q \<noteq> [] \<longrightarrow> dirp (put st p nd) (butlast q))"
  proof (cases "q = p")
    case True
    with l assms show ?thesis
      by (auto simp: look_put dirp_def split: if_splits)
  next
    case False
    with l assms(3) have lq: "look st q = Some x" by (simp add: look_put)
    have "q \<noteq> [] \<Longrightarrow> butlast q \<noteq> p"
      using good_parent [OF assms(1) lq] assms(5) by auto
    with lq assms(1,3) good_parent [OF assms(1) lq] show ?thesis
      by (auto simp: good_def look_put dirp_def)
  qed
qed

lemma good_look_cong: "\<forall>q. look st' q = look st q \<Longrightarrow> good st' = good st"
  by (simp add: good_def dirp_def)

lemma good_remove_tree: "good st \<Longrightarrow> p \<noteq> [] \<Longrightarrow> good (remove_tree st p)"
  unfolding good_def dirp_def
  by (auto simp: look_remove_tree split: if_splits dest: prefix_order.trans [OF _ prefixeq_butlast])

lemma strings_Split_snoc:
  "sep \<notin> set c \<Longrightarrow> strings_Split (xs @ sep # c) sep = strings_Split xs sep @ [c]"
proof (induction xs)
  case Nil
  then show ?case by (simp add: strings_Split_no_sep)
next
  case (Cons x xs)
  then show ?case
    by (cases "strings_Split xs sep") (auto simp: strings_Split_nonempty)
qed

lemma path_string_snoc:
  "path_string (p @ [c]) = (if p = [] then [] else path_string p) @ Separator # c"
  by (simp add: path_string_def)

lemma strings_Split_path_string:
  "valid_path p \<Longrightarrow> p \<noteq> [] \<Longrightarrow> strings_Split (path_string p) Separator = [] # p"
proof (induction p rule: rev_induct)
  case Nil
  then show ?case by simp
next
  case (snoc c p)
  then have vc: "Separator \<notin> set c" and vp: "valid_path p" by (simp_all add: valid_name_def)
  show ?case
  proof (cases "p = []")
    case True
    with vc show ?thesis by (simp add: path_string_def strings_Split_no_sep)
  next
    case False
    from snoc.IH [OF vp False] have "strings_Split (path_string p) Separator = [] # p" .
    with strings_Split_snoc [OF vc, of "path_string p"] show ?thesis
      by (simp add: path_string_snoc False)
  qed
qed

lemma path_string_inj:
  assumes "valid_path p" "valid_path q" "p \<noteq> []" "q \<noteq> []" "path_string p = path_string q"
  shows "p = q"
proof -
  have "[] # p = [] # q"
    using strings_Split_path_string [OF assms(1,3)] strings_Split_path_string [OF assms(2,4)]
    by (simp only: assms(5))
  then show ?thesis by simp
qed

lemma endsWithDot_path_string:
  assumes "valid_path p" "p \<noteq> []"
  shows "\<not> endsWithDot (path_string p)"
proof -
  from assms(2) obtain xs c where p: "p = xs @ [c]" by (metis rev_exhaust)
  with assms(1) have vc: "valid_name c" by (simp add: valid_path_def)
  then have c: "c \<noteq> []" "c \<noteq> ''.''" "Separator \<notin> set c" by (simp_all add: valid_name_def)
  obtain u where u: "path_string p = u @ Separator # c"
    unfolding p by (cases xs) (simp_all add: path_string_def)
  show ?thesis
  proof
    assume e: "endsWithDot (path_string p)"
    have "path_string p \<noteq> ''.''" unfolding u using c(1) by (cases u) auto
    with e have l: "last (path_string p) = CHR ''.''"
      and b: "last (butlast (path_string p)) = Separator" by (simp_all add: endsWithDot_def)
    from l c(1) have lc: "last c = CHR ''.''" unfolding u by simp
    from c(1) have bl: "butlast (path_string p) = u @ Separator # butlast c"
      unfolding u by (simp add: butlast_append)
    show False
    proof (cases "butlast c = []")
      case True
      with c(1) lc have "c = ''.''" by (metis append_butlast_last_id append_Nil)
      with c(2) show False by simp
    next
      case False
      with b have "last (butlast c) = Separator" unfolding bl by simp
      moreover from False have "last (butlast c) \<in> set (butlast c)" by simp
      ultimately have "Separator \<in> set c" by (metis in_set_butlastD)
      with c(3) show False by simp
    qed
  qed
qed

lemma os_RemoveAll_good:
  assumes "good st" "valid_path p" "p \<noteq> []" "dirp st (butlast p)"
  shows "\<exists>st'. os_RemoveAll (path_string p) st = (st', None) \<and> good st' \<and>
      (\<forall>q. look st' q = (if prefix p q then None else look st q)) \<and>
      opened st' = opened st \<and> cwd st' = cwd st"
proof -
  obtain c p' where pc: "p = c # p'" using assms(3) by (cases p) auto
  have ps: "path_string p \<noteq> [] \<and> hd (path_string p) = Separator"
    by (simp add: pc path_string_def)
  have toks: "filter (\<lambda>c. c \<noteq> []) (strings_Split (path_string p) Separator) = p"
    using strings_Split_path_string [OF assms(2,3)] assms(2)
    by (auto simp: valid_path_def valid_name_def filter_id_conv)
  have lastp: "last p \<noteq> ''.'' \<and> last p \<noteq> ''..''"
    using assms(2,3) by (auto simp: valid_path_def valid_name_def)
  from resolve_good [OF assms(1,2,3,4)]
  have "os_RemoveAll (path_string p) st = (remove_tree st p, None)"
    using ps toks lastp assms(3) endsWithDot_path_string [OF assms(2,3)]
    by (simp add: os_RemoveAll_def Let_def)
  with good_remove_tree [OF assms(1,3)] assms(3) show ?thesis
    by (simp add: look_remove_tree)
qed

section \<open>Decoding what was encoded\<close>

definition gob_message :: "string \<Rightarrow> string" where
  "gob_message s = gob_uint (length (gob_payload s)) @ gob_payload s"

definition enc_ok :: "string \<Rightarrow> bool" where
  "enc_ok s = (length (gob_payload s) < tooBig)"

function gob_records :: "string \<Rightarrow> string list \<times> error option" where
  "gob_records bs =
     (case gob_Decode bs of
        DecEOF \<Rightarrow> ([], None)
      | DecErr err \<Rightarrow> ([], Some err)
      | DecValue p rest \<Rightarrow> (case gob_records rest of (ps, r) \<Rightarrow> (p # ps, r)))"
  by pat_completeness auto
termination
  by (relation "measure length") (auto dest: gob_Decode_shorter)

declare gob_records.simps [simp del]

lemma gob_Encode_Inr: "gob_Encode s = Inr msg \<Longrightarrow> msg = gob_message s \<and> enc_ok s"
  by (auto simp: gob_Encode_def gob_message_def enc_ok_def split: if_splits)

lemma be_val_snoc: "be_val (xs @ [c]) = be_val xs * 256 + of_char c"
  by (simp add: be_val_def)

lemma be_val_be_bytes: "be_val (be_bytes n) = n"
proof (induction n rule: be_bytes.induct)
  case (1 n)
  show ?case
  proof (cases "n = 0")
    case True
    then show ?thesis by (simp add: be_bytes.simps be_val_def)
  next
    case False
    with 1 have "be_val (be_bytes (n div 256)) = n div 256" by simp
    with False show ?thesis
      by (subst be_bytes.simps) (simp add: be_val_snoc)
  qed
qed

lemma length_be_bytes: "n < 256 ^ k \<Longrightarrow> length (be_bytes n) \<le> k"
proof (induction k arbitrary: n)
  case 0
  then show ?case by (simp add: be_bytes.simps)
next
  case (Suc k)
  show ?case
  proof (cases "n = 0")
    case True
    then show ?thesis by (simp add: be_bytes.simps)
  next
    case False
    from Suc.prems have "n div 256 < 256 ^ k"
      by (simp add: less_mult_imp_div_less mult.commute)
    from Suc.IH [OF this] False show ?thesis
      by (subst be_bytes.simps) simp
  qed
qed

lemma length_be_bytes_pos: "n \<noteq> 0 \<Longrightarrow> 0 < length (be_bytes n)"
  by (subst be_bytes.simps) simp

lemma decode_uint_gob_uint:
  assumes "n < 2 ^ 64"
  shows "decode_uint (gob_uint n @ r) = Inr (n, r)"
proof (cases "n \<le> 127")
  case True
  then show ?thesis by (simp add: gob_uint_def decode_uint_def)
next
  case False
  define len where "len = length (be_bytes n)"
  have "n < (256::nat) ^ 8" using assms by simp
  from length_be_bytes [OF this] have l8: "len \<le> 8" by (simp add: len_def)
  from False have "n \<noteq> 0" by simp
  from length_be_bytes_pos [OF this] have l1: "0 < len" by (simp add: len_def)
  have oc: "(of_char (char_of (256 - len)) :: nat) = 256 - len"
    using l1 l8 by simp
  have gt: "\<not> (256 - len \<le> 127)" using l8 by simp
  have k: "256 - (256 - len) = len" using l8 by simp
  have tk: "take len (be_bytes n @ r) = be_bytes n" "drop len (be_bytes n @ r) = r"
    by (simp_all add: len_def)
  have "decode_uint (char_of (256 - len) # (be_bytes n @ r)) = Inr (n, r)"
    unfolding decode_uint_def list.case oc Let_def k tk be_val_be_bytes
    using gt l8 by (simp add: len_def)
  with False show ?thesis by (simp add: gob_uint_def len_def)
qed

lemma tooBig_less: "n < tooBig \<Longrightarrow> n < 2 ^ 64"
proof -
  have "(2::nat) ^ 33 < 2 ^ 64" by simp
  then show "n < tooBig \<Longrightarrow> n < 2 ^ 64" unfolding tooBig_def by (rule less_trans [rotated])
qed

lemma length_gob_uint_pos: "gob_uint n \<noteq> []"
  by (simp add: gob_uint_def)

lemma gob_Decode_message:
  assumes "enc_ok s"
  shows "gob_Decode (gob_message s @ r) = DecValue s r"
proof -
  let ?L = "length (gob_payload s)"
  from assms have L: "?L < tooBig" by (simp add: enc_ok_def)
  have ls: "length s \<le> ?L" by (simp add: gob_payload_def)
  from L ls have s64: "length s < 2 ^ 64" using tooBig_less [of "length s"] by simp
  have d1: "decode_uint (gob_uint ?L @ (gob_payload s @ r)) = Inr (?L, gob_payload s @ r)"
    by (rule decode_uint_gob_uint [OF tooBig_less [OF L]])
  have p1: "decode_uint (gob_uint 12 @ (gob_uint 0 @ gob_uint (length s) @ s))
      = Inr (12, gob_uint 0 @ gob_uint (length s) @ s)"
    by (rule decode_uint_gob_uint) simp
  have p2: "decode_uint (gob_uint 0 @ (gob_uint (length s) @ s)) = Inr (0, gob_uint (length s) @ s)"
    by (rule decode_uint_gob_uint) simp
  have p3: "decode_uint (gob_uint (length s) @ s) = Inr (length s, s)"
    by (rule decode_uint_gob_uint [OF s64])
  have dm: "decode_string_message (gob_payload s) = Inr s"
    using p1 p2 p3 by (simp add: decode_string_message_def gob_payload_def)
  have ne: "gob_message s @ r \<noteq> []" by (simp add: gob_message_def length_gob_uint_pos)
  show ?thesis
    using d1 dm L ne by (simp add: gob_Decode_def gob_message_def)
qed

lemma decode_uint_extend:
  assumes "decode_uint bs = Inr (n, rest)"
  shows "decode_uint (bs @ x) = Inr (n, rest @ x)"
proof (cases bs)
  case Nil
  with assms show ?thesis by (simp add: decode_uint_def)
next
  case (Cons b bs')
  show ?thesis
  proof (cases "(of_char b :: nat) \<le> 127")
    case True
    with assms Cons show ?thesis by (simp add: decode_uint_def)
  next
    case False
    with assms Cons have k: "\<not> 256 - (of_char b :: nat) > 8"
      "\<not> length bs' < 256 - (of_char b :: nat)"
      "n = be_val (take (256 - of_char b) bs')" "rest = drop (256 - of_char b) bs'"
      by (auto simp: decode_uint_def Let_def split: if_splits)
    with False Cons show ?thesis by (simp add: decode_uint_def Let_def)
  qed
qed

lemma gob_Decode_extend:
  assumes "gob_Decode bs = DecValue p rest"
  shows "gob_Decode (bs @ x) = DecValue p (rest @ x)"
proof -
  from assms have ne: "bs \<noteq> []" by (auto simp: gob_Decode_def decode_uint_def)
  from assms ne obtain n r where d: "decode_uint bs = Inr (n, r)"
    by (cases "decode_uint bs") (auto simp: gob_Decode_def split: if_splits)
  from assms ne d have c: "\<not> n \<ge> tooBig" "\<not> length r < n"
    by (auto simp: gob_Decode_def split: if_splits)
  from assms ne d c have m: "decode_string_message (take n r) = Inr p" "rest = drop n r"
    by (auto simp: gob_Decode_def split: sum.splits if_splits)
  from decode_uint_extend [OF d, of x] ne c m show ?thesis
    by (simp add: gob_Decode_def)
qed

lemma gob_records_Nil [simp]: "gob_records [] = ([], None)"
  by (simp add: gob_records.simps gob_Decode_def decode_uint_def)

text \<open>
  A stream is whole when it is a sequence of messages that decode, with nothing left
  over: what \<^verbatim>\<open>AddFile\<close> appends to such a stream is decoded after it.
\<close>

function gob_whole :: "string \<Rightarrow> bool" where
  "gob_whole bs =
     (if bs = [] then True
      else (case gob_Decode bs of DecValue p rest \<Rightarrow> gob_whole rest | _ \<Rightarrow> False))"
  by pat_completeness auto
termination
  by (relation "measure length") (auto dest: gob_Decode_shorter)

declare gob_whole.simps [simp del]

lemma gob_whole_Nil [simp]: "gob_whole []"
  by (simp add: gob_whole.simps)

lemma gob_whole_records: "gob_whole bs \<Longrightarrow> snd (gob_records bs) = None"
proof (induction bs rule: gob_records.induct)
  case (1 bs)
  show ?case
  proof (cases "bs = []")
    case True
    then show ?thesis by simp
  next
    case False
    with 1(2) obtain p rest where d: "gob_Decode bs = DecValue p rest" and w: "gob_whole rest"
      by (auto simp: gob_whole.simps [of bs] split: decoded.splits)
    from 1(1) [OF d w] d show ?thesis
      by (cases "gob_records rest") (simp add: gob_records.simps [of bs])
  qed
qed

lemma gob_records_append:
  "gob_whole c \<Longrightarrow> enc_ok s \<Longrightarrow>
   gob_records (c @ gob_message s) = (fst (gob_records c) @ [s], None) \<and>
   gob_whole (c @ gob_message s)"
proof (induction c rule: gob_records.induct)
  case (1 bs)
  show ?case
  proof (cases "bs = []")
    case True
    from gob_Decode_message [OF 1(3), of "[]"] have d: "gob_Decode (gob_message s) = DecValue s []"
      by simp
    then have "gob_message s \<noteq> []" by (auto simp: gob_Decode_def decode_uint_def)
    with d True show ?thesis
      by (simp add: gob_records.simps [of "gob_message s"] gob_whole.simps [of "gob_message s"])
  next
    case False
    with 1(2) obtain p rest where d: "gob_Decode bs = DecValue p rest" and w: "gob_whole rest"
      by (auto simp: gob_whole.simps [of bs] split: decoded.splits)
    from 1(1) [OF d w 1(3)] gob_Decode_extend [OF d, of "gob_message s"] d False
    show ?thesis
      by (cases "gob_records rest")
         (simp add: gob_records.simps [of bs] gob_records.simps [of "bs @ gob_message s"]
            gob_whole.simps [of "bs @ gob_message s"])
  qed
qed

lemma gob_whole_append: "gob_whole c \<Longrightarrow> enc_ok s \<Longrightarrow> gob_whole (c @ gob_message s)"
  using gob_records_append by blast

lemma gob_whole_stream:
  "\<forall>s\<in>set recs. enc_ok s \<Longrightarrow> gob_whole (concat (map gob_message recs))"
proof (induction recs rule: rev_induct)
  case Nil
  then show ?case by simp
next
  case (snoc s recs)
  then have "gob_whole (concat (map gob_message recs))" by simp
  with gob_whole_append [of "concat (map gob_message recs)" s] snoc.prems show ?case by simp
qed

lemma gob_records_stream:
  "\<forall>s\<in>set recs. enc_ok s \<Longrightarrow> gob_records (concat (map gob_message recs)) = (recs, None)"
proof (induction recs rule: rev_induct)
  case Nil
  then show ?case by simp
next
  case (snoc s recs)
  then have r: "gob_records (concat (map gob_message recs)) = (recs, None)"
    and w: "gob_whole (concat (map gob_message recs))"
    by (simp_all add: gob_whole_stream)
  from gob_records_append [OF w, of s] r snoc.prems show ?case by simp
qed

section \<open>The manifest operations on a well-formed filesystem\<close>

text \<open>
  A manifest is local when every path it records is an entry of its own directory; every
  manifest the program writes is. \<^verbatim>\<open>Clean\<close> then removes recorded entries of that directory
  and the manifest, and nothing else.
\<close>

definition recorded :: "path \<Rightarrow> string list \<Rightarrow> string \<Rightarrow> bool" where
  "recorded D recs n = (valid_name n \<and> path_string (D @ [n]) \<in> set recs)"

definition old_records :: "state \<Rightarrow> path \<Rightarrow> string list" where
  "old_records st P = (case look st P of Some (File pm c) \<Rightarrow> fst (gob_records c) | _ \<Rightarrow> [])"

definition local_records :: "path \<Rightarrow> string list \<Rightarrow> bool" where
  "local_records D recs = (\<forall>s\<in>set recs. \<exists>n. valid_name n \<and> s = path_string (D @ [n]))"

definition local_manifests :: "path \<Rightarrow> string \<Rightarrow> state \<Rightarrow> bool" where
  "local_manifests dst m st =
     (\<forall>D. prefix dst D \<longrightarrow> local_records D (old_records st (D @ [m])))"

lemma strip_common_child: "strip_common S (S @ [n]) = ([], [n])"
  by (induction S) auto

lemma GetPathRelativeTo_child: "GetPathRelativeTo (S @ [n]) S = n"
  by (simp add: GetPathRelativeTo_def filepath_Rel_def strip_common_child)

lemma clean_onto_valid: "valid_path cs \<Longrightarrow> clean_onto acc cs = acc @ cs"
  by (induction cs arbitrary: acc) (auto simp: valid_name_def)

lemma filepath_Join_valid:
  "valid_path D \<Longrightarrow> valid_name n \<Longrightarrow> filepath_Join D n = D @ [n]"
  using clean_onto_valid [of "D @ [n]" "[]"]
  by (simp add: filepath_Join_def strings_Split_no_sep valid_name_def)

text \<open>Listing a directory whose path has no magic character.\<close>

lemma hasMeta_append [simp]: "hasMeta (a @ b) = (hasMeta a \<or> hasMeta b)"
  by (simp add: hasMeta_def)

lemma hasMeta_Cons: "hasMeta (c # cs) =
    ((c = CHR ''*'' \<or> c = CHR ''?'' \<or> c = CHR ''['' \<or> c = CHR 0x5C) \<or> hasMeta cs)"
  by (simp add: hasMeta_def)

lemma hasMeta_Nil [simp]: "\<not> hasMeta []"
  by (simp add: hasMeta_def)

lemma hasMeta_concat: "hasMeta (concat (map (\<lambda>c. Separator # c) p)) = (\<exists>c\<in>set p. hasMeta c)"
  by (induction p) (auto simp: hasMeta_Cons Separator_def)

lemma hasMeta_path_string: "hasMeta (path_string p) = (\<exists>c\<in>set p. hasMeta c)"
proof (cases "p = []")
  case True
  then show ?thesis by (simp add: path_string_def hasMeta_Cons Separator_def)
next
  case False
  then show ?thesis by (simp add: path_string_def hasMeta_concat)
qed

lemma scan_index_plain:
  "\<not> hasMeta s \<Longrightarrow> scan_index False (s @ ''*'') = length s"
  by (induction s) (auto simp: hasMeta_Cons)

lemma matchChunk_loop_plain:
  "\<not> hasMeta s \<Longrightarrow> f \<or> s \<noteq> [] \<Longrightarrow> matchChunk_loop s [] f = Inr ([], False)"
proof (induction s arbitrary: f)
  case Nil
  then show ?case by (simp add: matchChunk_loop.simps)
next
  case (Cons c s)
  from Cons.prems(1) have c: "c \<noteq> CHR ''*''" "c \<noteq> CHR ''?''" "c \<noteq> CHR ''[''" "c \<noteq> CHR 0x5C"
    and s: "\<not> hasMeta s" by (auto simp: hasMeta_Cons)
  have "matchChunk_loop (c # s) [] f = matchChunk_loop s [] True"
    using c by (simp add: matchChunk_loop.simps [of "c # s"])
  with Cons.IH [OF s, of True] show ?case by simp
qed

lemma chunks_star: "chunks ''*'' = [(True, [])]"
  by (simp add: chunks.simps [of "''*''"] chunks.simps [of "[]"] scanChunk_def)

lemma filepath_Match_star: "filepath_Match ''*'' n = Inr (Separator \<notin> set n)"
  by (simp add: filepath_Match_def chunks_star)

lemma chunks_plain_star:
  assumes "\<not> hasMeta s" "s \<noteq> []"
  shows "chunks (s @ ''*'') = [(False, s), (True, [])]"
proof -
  from assms have h: "hd s \<noteq> CHR ''*''" by (cases s) (auto simp: hasMeta_Cons)
  with assms(2) have d: "dropWhile (\<lambda>c. c = CHR ''*'') (s @ ''*'') = s @ ''*''"
    by (cases s) auto
  from assms(2) h have hh: "hd (s @ ''*'') \<noteq> CHR ''*''" by (cases s) auto
  have "scanChunk (s @ ''*'') = (False, s, ''*'')"
    using hh by (simp add: scanChunk_def d scan_index_plain [OF assms(1)])
  then show ?thesis using assms(2) by (simp add: chunks.simps [of "s @ ''*''"] chunks_star)
qed

lemma filepath_Match_plain_star:
  assumes "\<not> hasMeta s" "s \<noteq> []"
  shows "filepath_Match (s @ ''*'') [] = Inr False"
  using matchChunk_loop_plain [OF assms(1), of False] assms(2)
  by (simp add: filepath_Match_def chunks_plain_star [OF assms] matchChunk_def
      matchChunk_loop.simps [of "[]"])

lemma path_string_star:
  "path_string (S @ [''*'']) = concat (map (\<lambda>c. Separator # c) S) @ [Separator] @ ''*''"
  by (simp add: path_string_def)

lemma glob_names_star:
  "\<forall>n\<in>set ns. valid_name n \<Longrightarrow> valid_path S \<Longrightarrow>
   glob_names S ''*'' ns m = (m @ map (\<lambda>n. S @ [n]) ns, None)"
proof (induction ns arbitrary: m)
  case Nil
  then show ?case by simp
next
  case (Cons n ns)
  then have vn: "valid_name n" by simp
  then have "Separator \<notin> set n" by (simp add: valid_name_def)
  have "filepath_Join S n = S @ [n]" by (rule filepath_Join_valid [OF Cons.prems(2) vn])
  with Cons \<open>Separator \<notin> set n\<close> show ?case
    by (simp add: filepath_Match_star)
qed


lemma glob_good:
  assumes "good st" "valid_path S"
  shows "glob st S ''*'' [] = (if dirp st S then map (\<lambda>n. S @ [n]) (children st S) else [], None)"
proof (cases "dirp st S")
  case True
  have "\<forall>n\<in>set (children st S). valid_name n"
  proof
    fix n assume "n \<in> set (children st S)"
    then obtain nd where "look st (S @ [n]) = Some nd" by (auto simp: children_set)
    from good_valid [OF assms(1) this] show "valid_name n" by (simp add: valid_path_def)
  qed
  from glob_names_star [OF this assms(2), of "[]"] resolve_good_dir [OF assms True] True
  show ?thesis by (auto simp: glob_def dirp_def)
next
  case False
  then have ne: "S \<noteq> []" by auto
  show ?thesis
  proof (cases "dirp st (butlast S)")
    case True
    from resolve_good [OF assms ne True] False show ?thesis
      by (auto simp: glob_def dirp_def split: option.splits node.splits)
  next
    case nd: False
    from resolve_good_err [OF assms ne nd, of True symloop_max] False show ?thesis
      by (auto simp: glob_def)
  qed
qed

lemma filepath_Glob_good:
  assumes "good st" "valid_path S" "\<forall>c\<in>set S. \<not> hasMeta c"
  shows "filepath_Glob st S =
     Inr (if dirp st S then map (\<lambda>n. S @ [n]) (children st S) else [])"
proof -
  define s where "s = concat (map (\<lambda>c. Separator # c) S) @ [Separator]"
  have ps: "path_string (S @ [''*'']) = s @ ''*''" by (simp add: path_string_star s_def)
  have "\<not> hasMeta [Separator]" by (simp add: hasMeta_Cons Separator_def)
  with assms(3) have nm: "\<not> hasMeta s" by (simp add: s_def hasMeta_concat)
  have ne: "s \<noteq> []" by (simp add: s_def)
  have m: "filepath_Match (path_string (S @ [''*''])) [] = Inr False"
    unfolding ps by (rule filepath_Match_plain_star [OF nm ne])
  have h1: "hasMeta (path_string (S @ [''*'']))" by (simp add: hasMeta_path_string hasMeta_Cons)
  have h2: "\<not> hasMeta (path_string S)" using assms(3) by (simp add: hasMeta_path_string)
  show ?thesis
    by (simp add: filepath_Glob_def pathSeparatorsLimit_def m h1 h2 glob_good [OF assms(1,2)])
qed

lemma good_opened_update [simp]: "good (st\<lparr>opened := x\<rparr>) = good st"
  by (simp add: good_def dirp_def)

lemma dirp_opened_update [simp]: "dirp (st\<lparr>opened := x\<rparr>) = dirp st"
  by (rule ext) (simp add: dirp_def)

lemma clean_loop_good:
  assumes "valid_path D"
  shows "good st \<Longrightarrow> local_records D (fst (gob_records bs)) \<Longrightarrow> dirp st D \<Longrightarrow>
     \<exists>st'. clean_loop bs st = (st', snd (gob_records bs)) \<and> good st' \<and>
       (\<forall>q. look st' q =
          (if \<exists>n. recorded D (fst (gob_records bs)) n \<and> prefix (D @ [n]) q then None
           else look st q)) \<and>
       opened st' = opened st"
proof (induction bs arbitrary: st rule: gob_records.induct)
  case (1 bs)
  show ?case
  proof (cases "gob_Decode bs")
    case DecEOF
    with 1(2) show ?thesis
      by (simp add: clean_loop.simps [of bs] gob_records.simps [of bs] recorded_def)
  next
    case (DecErr e)
    with 1(2) show ?thesis
      by (simp add: clean_loop.simps [of bs] gob_records.simps [of bs] recorded_def)
  next
    case (DecValue p rest)
    obtain ps r where gr: "gob_records rest = (ps, r)" by (cases "gob_records rest")
    with DecValue have gb: "gob_records bs = (p # ps, r)"
      by (simp add: gob_records.simps [of bs])
    from 1(3) gb obtain n where n: "valid_name n" "p = path_string (D @ [n])"
      by (auto simp: local_records_def)
    from 1(3) gb gr have lr: "local_records D (fst (gob_records rest))"
      by (auto simp: local_records_def)
    have vp: "valid_path (D @ [n])" using assms n(1) by simp
    have dn: "dirp st (butlast (D @ [n]))" using 1(4) by simp
    from os_RemoveAll_good [OF 1(2) vp _ dn] n(2)
    obtain st1 where st1: "os_RemoveAll p st = (st1, None)" "good st1"
      "\<forall>q. look st1 q = (if prefix (D @ [n]) q then None else look st q)"
      "opened st1 = opened st"
      by auto
    have d1: "dirp st1 D" using 1(4) st1(3) by (simp add: dirp_def)
    from 1(1) [OF DecValue st1(2) lr d1]
    obtain st' where st': "clean_loop rest st1 = (st', snd (gob_records rest))" "good st'"
      "\<forall>q. look st' q =
          (if \<exists>n. recorded D (fst (gob_records rest)) n \<and> prefix (D @ [n]) q then None
           else look st1 q)"
      "opened st' = opened st1"
      by auto
    have cl: "clean_loop bs st = (st', snd (gob_records bs))"
      using DecValue st1(1) st'(1) gr gb by (simp add: clean_loop.simps [of bs])
    have same: "\<And>x. valid_name x \<Longrightarrow> path_string (D @ [x]) = p \<Longrightarrow> x = n"
    proof -
      fix x assume x: "valid_name x" "path_string (D @ [x]) = p"
      have "D @ [x] = D @ [n]"
      proof (rule path_string_inj)
        show "valid_path (D @ [x])" using assms x(1) by simp
        show "valid_path (D @ [n])" by (rule vp)
        show "path_string (D @ [x]) = path_string (D @ [n])" using x(2) n(2) by (simp only:)
      qed simp_all
      then show "x = n" by simp
    qed
    have rec: "\<And>x. recorded D (fst (gob_records bs)) x =
        (recorded D (fst (gob_records rest)) x \<or> x = n)"
    proof -
      fix x
      have "recorded D (p # ps) x = (recorded D ps x \<or> x = n)"
        using same [of x] n(1) n(2) [symmetric] by (auto simp: recorded_def)
      then show "recorded D (fst (gob_records bs)) x =
        (recorded D (fst (gob_records rest)) x \<or> x = n)"
        by (simp add: gb gr)
    qed
    have "\<forall>q. look st' q =
          (if \<exists>n. recorded D (fst (gob_records bs)) n \<and> prefix (D @ [n]) q then None
           else look st q)"
    proof
      fix q
      define A where "A = (\<exists>x. recorded D (fst (gob_records rest)) x \<and> prefix (D @ [x]) q)"
      have e: "(\<exists>x. recorded D (fst (gob_records bs)) x \<and> prefix (D @ [x]) q) =
          (A \<or> prefix (D @ [n]) q)"
        unfolding rec A_def by blast
      have a: "look st' q = (if A then None else look st1 q)"
        using st'(3) [rule_format, of q] unfolding A_def .
      show "look st' q =
          (if \<exists>n. recorded D (fst (gob_records bs)) n \<and> prefix (D @ [n]) q then None
           else look st q)"
        unfolding e a using st1(3) [rule_format, of q] by simp
    qed
    with cl st'(2) st'(4) st1(4) show ?thesis by auto
  qed
qed

lemma prefix_absent:
  assumes "good st" "look st p = None" "prefix p q"
  shows "look st q = None"
proof -
  from assms(3) obtain r where q: "q = p @ r" by (auto simp: prefix_def)
  show ?thesis
  proof (cases "r = []")
    case True
    with q assms(2) show ?thesis by simp
  next
    case False
    from assms(2) have "\<not> dirp st p" by (simp add: dirp_def)
    from good_absent_below [OF assms(1) this False] q show ?thesis by simp
  qed
qed

lemma Clean_good:
  assumes g: "good st" and vD: "valid_path D" and vm: "valid_name m"
    and loc: "local_records D (old_records st (D @ [m]))"
    and cl: "Clean (newFileManifest (D @ [m])) st = (st', None)"
  shows "good st' \<and>
     (\<forall>q. look st' q =
        (if prefix (D @ [m]) q \<or>
            (\<exists>n. recorded D (old_records st (D @ [m])) n \<and> prefix (D @ [n]) q) then None
         else look st q))"
proof -
  have vP: "valid_path (D @ [m])" using vD vm by simp
  show ?thesis
  proof (cases "look st (D @ [m])")
    case None
    with FileExists_good [OF g vP] cl have "st' = st"
      by (simp add: Clean_def newFileManifest_def)
    moreover have "old_records st (D @ [m]) = []" using None by (simp add: old_records_def)
    ultimately show ?thesis
      using g prefix_absent [OF g None] by (auto simp: recorded_def)
  next
    case (Some nd)
    with FileExists_good [OF g vP] have fe: "FileExists st (D @ [m])" by simp
    from Some have dp: "dirp st (butlast (D @ [m]))"
      using good_parent [OF g Some] by simp
    have rs: "resolve st True symloop_max [] (D @ [m]) = Inr (D @ [m])"
      by (rule resolve_good [OF g vP _ dp]) simp
    show ?thesis
    proof (cases nd)
      case (Dir pm)
      with cl fe Some rs show ?thesis
        by (simp add: Clean_def newFileManifest_def os_Open_def)
    next
      case (Symlink pm t)
      with Some good_no_symlink [OF g] show ?thesis by blast
    next
      case (File pm c)
      let ?st1 = "st\<lparr>opened := (D @ [m]) # opened st\<rparr>"
      have op: "os_Open (D @ [m]) st = (?st1, Inr (\<lparr>hpath = D @ [m], hoffset = 0\<rparr>, Inr c))"
        using rs Some File by (simp add: os_Open_def)
      have recs: "old_records st (D @ [m]) = fst (gob_records c)"
        using Some File by (simp add: old_records_def)
      have g1: "good ?st1" using g by simp
      have lr: "local_records D (fst (gob_records c))" using loc recs by simp
      have l1: "look ?st1 = look st" by simp
      have d1: "dirp ?st1 D" using dp by (simp add: dirp_def)
      from clean_loop_good [OF vD g1 lr d1]
      obtain st2 where st2a: "clean_loop c ?st1 = (st2, snd (gob_records c)) \<and> good st2 \<and>
        (\<forall>q. look st2 q =
          (if \<exists>n. recorded D (fst (gob_records c)) n \<and> prefix (D @ [n]) q then None
           else look ?st1 q)) \<and>
        opened st2 = opened ?st1" ..
      then have st2: "clean_loop c ?st1 = (st2, snd (gob_records c))" "good st2"
        "\<forall>q. look st2 q =
          (if \<exists>n. recorded D (fst (gob_records c)) n \<and> prefix (D @ [n]) q then None
           else look st q)"
        "opened st2 = (D @ [m]) # opened st"
        unfolding l1 by simp_all
      have c1: "Clean (newFileManifest (D @ [m])) st =
         (case clean_loop c ?st1 of
            (st2, Some err) \<Rightarrow> (st2, Some err)
          | (st2, None) \<Rightarrow>
              (case os_File_Close \<lparr>hpath = D @ [m], hoffset = 0\<rparr> st2 of
                 (st3, Some err) \<Rightarrow> (st3, Some err)
               | (st3, None) \<Rightarrow> os_RemoveAll (path_string (D @ [m])) st3))"
        using fe op by (simp add: Clean_def newFileManifest_def)
      have ok: "snd (gob_records c) = None"
      proof (cases "snd (gob_records c)")
        case None
        then show ?thesis .
      next
        case (Some e)
        with c1 cl st2(1) show ?thesis by simp
      qed
      let ?st3 = "st2\<lparr>opened := remove1 (D @ [m]) (opened st2)\<rparr>"
      have cls: "os_File_Close \<lparr>hpath = D @ [m], hoffset = 0\<rparr> st2 = (?st3, None)"
        using st2(4) by (simp add: os_File_Close_def)
      from c1 cl st2(1) ok cls
      have ra: "os_RemoveAll (path_string (D @ [m])) ?st3 = (st', None)"
        by simp
      have g3: "good ?st3" using st2(2) by simp
      have l3: "look ?st3 = look st2" by simp
      have neP: "D @ [m] \<noteq> []" by simp
      have d3: "dirp ?st3 (butlast (D @ [m]))" using dp st2(3) by (auto simp: dirp_def)
      from os_RemoveAll_good [OF g3 vP neP d3]
      obtain st4 where st4: "os_RemoveAll (path_string (D @ [m])) ?st3 = (st4, None) \<and> good st4 \<and>
        (\<forall>q. look st4 q = (if prefix (D @ [m]) q then None else look ?st3 q)) \<and>
        opened st4 = opened ?st3 \<and> cwd st4 = cwd ?st3" ..
      with ra have e4: "st4 = st'" by simp
      from st4 have gs: "good st'"
        and ls: "\<forall>q. look st' q = (if prefix (D @ [m]) q then None else look st2 q)"
        unfolding e4 l3 by simp_all
      show ?thesis
      proof (intro conjI allI)
        show "good st'" by (rule gs)
      next
        fix q
        define A where "A = (\<exists>n. recorded D (fst (gob_records c)) n \<and> prefix (D @ [n]) q)"
        have a: "look st2 q = (if A then None else look st q)"
          using st2(3) [rule_format, of q] unfolding A_def .
        show "look st' q =
          (if prefix (D @ [m]) q \<or>
              (\<exists>n. recorded D (old_records st (D @ [m])) n \<and> prefix (D @ [n]) q) then None
           else look st q)"
          unfolding recs A_def [symmetric] using ls [rule_format, of q] a by simp
      qed
    qed
  qed
qed

lemma Create_good:
  assumes g: "good st" and vD: "valid_path D" and vm: "valid_name m"
    and cr: "Create (newFileManifest (D @ [m])) st = (st', man, None)"
  shows "dirp st D \<and> \<not> dirp st (D @ [m]) \<and>
     fileHandle man = Some \<lparr>hpath = D @ [m], hoffset = 0\<rparr> \<and> good st' \<and>
     (\<forall>q. look st' q =
        (if q = D @ [m]
         then Some (File (case look st (D @ [m]) of Some (File pm0 bs) \<Rightarrow> pm0 | _ \<Rightarrow> perm_0644) [])
         else look st q))"
proof -
  have vP: "valid_path (D @ [m])" using vD vm by simp
  show ?thesis
  proof (cases "dirp st D")
    case False
    then have "\<not> dirp st (butlast (D @ [m]))" by simp
    from resolve_good_err [OF g vP _ this, of True symloop_max] cr show ?thesis
      by (auto simp: Create_def newFileManifest_def os_OpenFile_create_trunc_def)
  next
    case True
    then have "dirp st (butlast (D @ [m]))" by simp
    from resolve_good [OF g vP _ this]
    have rs: "resolve st True symloop_max [] (D @ [m]) = Inr (D @ [m])" by simp
    show ?thesis
    proof (cases "look st (D @ [m])")
      case None
      have nd: "\<not> dirp st (D @ [m])" using None by (simp add: dirp_def)
      have "good (put st (D @ [m]) (File perm_0644 []))"
        by (rule good_put [OF g vP _ _ nd]) (use True in simp_all)
      with cr rs None True nd show ?thesis
        by (auto simp: Create_def newFileManifest_def os_OpenFile_create_trunc_def look_put)
    next
      case (Some nd)
      show ?thesis
      proof (cases nd)
        case (File pm0 bs)
        have nd: "\<not> dirp st (D @ [m])" using Some File by (simp add: dirp_def)
        have "good (put st (D @ [m]) (File pm0 []))"
          by (rule good_put [OF g vP _ _ nd]) (use True in simp_all)
        with cr rs Some File True nd show ?thesis
          by (auto simp: Create_def newFileManifest_def os_OpenFile_create_trunc_def look_put)
      next
        case (Dir pm0)
        with cr rs Some show ?thesis
          by (auto simp: Create_def newFileManifest_def os_OpenFile_create_trunc_def)
      next
        case (Symlink pm0 t)
        with cr rs Some show ?thesis
          by (auto simp: Create_def newFileManifest_def os_OpenFile_create_trunc_def)
      qed
    qed
  qed
qed

lemma write_at_end [simp]: "write_at c (length c) bs = c @ bs"
  by (simp add: write_at_def)

lemma AddFile_good:
  assumes g: "good st" and h: "fileHandle man = Some h" "hpath h = P" "hoffset h = length c"
    and l: "look st P = Some (File pm c)"
    and af: "AddFile man s st = (st', man', None)"
  shows "enc_ok s \<and> good st' \<and>
     (\<forall>q. look st' q = (if q = P then Some (File pm (c @ gob_message s)) else look st q)) \<and>
     (\<exists>h'. fileHandle man' = Some h' \<and> hpath h' = P \<and> hoffset h' = length (c @ gob_message s))"
proof -
  from l have ne: "P \<noteq> []" by auto
  from af h obtain msg where e: "gob_Encode s = Inr msg"
    by (auto simp: AddFile_def split: sum.splits)
  from gob_Encode_Inr [OF e] have msg: "msg = gob_message s" and ok: "enc_ok s" by simp_all
  from af h e msg l have st': "st' = put st P (File pm (c @ gob_message s))"
    and man': "man' = man\<lparr>fileHandle := Some (h\<lparr>hoffset := hoffset h + length (gob_message s)\<rparr>)\<rparr>"
    by (auto simp: AddFile_def os_File_Write_def)
  have nd: "\<not> dirp st P" using l by (simp add: dirp_def)
  have "good st'" unfolding st'
    by (rule good_put [OF g good_valid [OF g l] ne good_parent [OF g l ne] nd]) simp
  with ok st' man' h ne show ?thesis by (simp add: look_put)
qed

section \<open>The state a run leaves\<close>

text \<open>
  \<^verbatim>\<open>expected\<close> gives, for a path below the destination, the node a successful run leaves
  there, from the source tree and from what was at the destination before (\<^verbatim>\<open>old\<close>, by
  path relative to the destination directory).
\<close>

fun is_file :: "node option \<Rightarrow> bool" where
  "is_file (Some (File pm c)) = True"
| "is_file x = False"

definition accepted_files :: "(string \<Rightarrow> bool) \<Rightarrow> state \<Rightarrow> path \<Rightarrow> string list" where
  "accepted_files f st S = filter (\<lambda>n. f n \<and> is_file (look st (S @ [n]))) (children st S)"

definition manifest_bytes :: "(string \<Rightarrow> bool) \<Rightarrow> state \<Rightarrow> path \<Rightarrow> path \<Rightarrow> string" where
  "manifest_bytes f st S D =
     concat (map (\<lambda>n. gob_message (path_string (D @ [n]))) (accepted_files f st S))"

fun expected ::
  "(string \<Rightarrow> bool) \<Rightarrow> string \<Rightarrow> state \<Rightarrow> path \<Rightarrow> path \<Rightarrow> (path \<Rightarrow> node option) \<Rightarrow> path
     \<Rightarrow> node option" where
  "expected f m st S D old [] = old []"
| "expected f m st S D old (n # rest) =
     (let old1 = (\<lambda>r. if recorded D (case old [m] of Some (File pm c) \<Rightarrow> fst (gob_records c)
                                                | _ \<Rightarrow> []) n
                        then None else old r)
      in if n = m then (if rest = [] then Some (File perm_0644 (manifest_bytes f st S D)) else None)
         else if f n then
           (case look st (S @ [n]) of
              Some (File pm c) \<Rightarrow>
                if rest = []
                then Some (File (case old1 [n] of Some (File pm0 c0) \<Rightarrow> pm0 | _ \<Rightarrow> pm) c)
                else None
            | Some (Dir pm) \<Rightarrow>
                expected f m st (S @ [n]) (D @ [n])
                  (\<lambda>r. if r = [] then (case old1 [n] of None \<Rightarrow> Some (Dir pm) | Some nd \<Rightarrow> Some nd)
                       else old1 (n # r)) rest
            | _ \<Rightarrow> old1 (n # rest))
         else old1 (n # rest))"

definition child_expected ::
  "(string \<Rightarrow> bool) \<Rightarrow> string \<Rightarrow> state \<Rightarrow> path \<Rightarrow> path \<Rightarrow> (path \<Rightarrow> node option) \<Rightarrow> string \<Rightarrow> path
     \<Rightarrow> node option" where
  "child_expected f m st S D old n rest =
     (case look st (S @ [n]) of
        Some (File pm c) \<Rightarrow>
          if rest = [] then Some (File (case old [n] of Some (File pm0 c0) \<Rightarrow> pm0 | _ \<Rightarrow> pm) c)
          else None
      | Some (Dir pm) \<Rightarrow>
          expected f m st (S @ [n]) (D @ [n])
            (\<lambda>r. if r = [] then (case old [n] of None \<Rightarrow> Some (Dir pm) | Some nd \<Rightarrow> Some nd)
                 else old (n # r)) rest
      | _ \<Rightarrow> old (n # rest))"

lemma expected_Cons:
  "expected f m st S D old (n # rest) =
     (if n = m then (if rest = [] then Some (File perm_0644 (manifest_bytes f st S D)) else None)
      else if f n then
        child_expected f m st S D
          (\<lambda>r. if recorded D (case old [m] of Some (File pm c) \<Rightarrow> fst (gob_records c) | _ \<Rightarrow> []) n
               then None else old r) n rest
      else if recorded D (case old [m] of Some (File pm c) \<Rightarrow> fst (gob_records c) | _ \<Rightarrow> []) n
           then None else old (n # rest))"
  by (simp add: child_expected_def Let_def)

declare expected.simps(2) [simp del]

fun visited :: "(string \<Rightarrow> bool) \<Rightarrow> state \<Rightarrow> path \<Rightarrow> path \<Rightarrow> bool" where
  "visited f st S [] = True"
| "visited f st S (n # r) = (f n \<and> dirp st (S @ [n]) \<and> visited f st (S @ [n]) r)"

definition encodable :: "(string \<Rightarrow> bool) \<Rightarrow> state \<Rightarrow> path \<Rightarrow> path \<Rightarrow> bool" where
  "encodable f st S D =
     (\<forall>r n. visited f st S r \<longrightarrow> n \<in> set (accepted_files f st (S @ r)) \<longrightarrow>
        enc_ok (path_string (D @ r @ [n])))"

definition src_eq :: "path \<Rightarrow> state \<Rightarrow> state \<Rightarrow> bool" where
  "src_eq S st st' = (\<forall>q. prefix S q \<longrightarrow> look st' q = look st q)"

lemma src_eq_refl [simp]: "src_eq S st st"
  by (simp add: src_eq_def)

lemma src_eq_child: "src_eq S st st' \<Longrightarrow> src_eq (S @ r) st st'"
  by (auto simp: src_eq_def dest: append_prefixD)

lemma src_eq_look: "src_eq S st st' \<Longrightarrow> look st' (S @ r) = look st (S @ r)"
  by (simp add: src_eq_def)

lemma src_eq_dirp: "src_eq S st st' \<Longrightarrow> dirp st' (S @ r) = dirp st (S @ r)"
  by (simp add: dirp_def src_eq_look)

lemma src_eq_children: "src_eq S st st' \<Longrightarrow> children st' S = children st S"
  by (rule children_cong) (simp add: src_eq_def)

lemma src_eq_accepted_files: "src_eq S st st' \<Longrightarrow> accepted_files f st' S = accepted_files f st S"
  using src_eq_look [of S st st'] by (simp add: accepted_files_def src_eq_children)

lemma src_eq_manifest_bytes: "src_eq S st st' \<Longrightarrow> manifest_bytes f st' S D = manifest_bytes f st S D"
  by (simp add: manifest_bytes_def src_eq_accepted_files)

lemma src_eq_expected:
  "src_eq S st st' \<Longrightarrow> expected f m st' S D old rel = expected f m st S D old rel"
proof (induction rel arbitrary: S D old)
  case Nil
  then show ?case by simp
next
  case (Cons n rel)
  have l: "look st' (S @ [n]) = look st (S @ [n])" by (rule src_eq_look [OF Cons.prems])
  have c: "src_eq (S @ [n]) st st'" by (rule src_eq_child [OF Cons.prems])
  show ?case
    by (simp add: expected.simps(2) Let_def l src_eq_manifest_bytes [OF Cons.prems] Cons.IH [OF c]
        split: option.splits node.splits)
qed

lemma src_eq_child_expected:
  assumes "src_eq S st st'" "\<forall>r. old' (n # r) = old (n # r)"
  shows "child_expected f m st' S D old' n rest = child_expected f m st S D old n rest"
proof -
  have l: "look st' (S @ [n]) = look st (S @ [n])" by (rule src_eq_look [OF assms(1)])
  have c: "src_eq (S @ [n]) st st'" by (rule src_eq_child [OF assms(1)])
  have o: "old' [n] = old [n]" using assms(2) by simp
  have v: "\<And>pm. (\<lambda>r. if r = [] then (case old' [n] of None \<Rightarrow> Some (Dir pm) | Some nd \<Rightarrow> Some nd)
                 else old' (n # r)) =
           (\<lambda>r. if r = [] then (case old [n] of None \<Rightarrow> Some (Dir pm) | Some nd \<Rightarrow> Some nd)
                 else old (n # r))"
    using assms(2) o by auto
  have e: "\<And>pm. (\<lambda>r. if r = [] then (case old [n] of None \<Rightarrow> Some (Dir pm) | Some nd \<Rightarrow> Some nd)
                 else old' (n # r)) =
           (\<lambda>r. if r = [] then (case old [n] of None \<Rightarrow> Some (Dir pm) | Some nd \<Rightarrow> Some nd)
                 else old (n # r))"
    using assms(2) by auto
  show ?thesis
    unfolding child_expected_def l o src_eq_expected [OF c]
    by (simp add: e assms(2) split: option.splits node.splits)
qed

lemma src_eq_visited: "src_eq S st st' \<Longrightarrow> visited f st' S r = visited f st S r"
proof (induction r arbitrary: S)
  case Nil
  then show ?case by simp
next
  case (Cons n r)
  from Cons.IH [OF src_eq_child [OF Cons.prems, of "[n]"]] src_eq_dirp [OF Cons.prems, of "[n]"]
  show ?case by simp
qed

lemma src_eq_encodable: "src_eq S st st' \<Longrightarrow> encodable f st' S D = encodable f st S D"
  by (simp add: encodable_def src_eq_visited src_eq_accepted_files [OF src_eq_child])

section \<open>One child\<close>

text \<open>
  Two conditions on the source tree. No entry the filter accepts is named like the
  manifest. And no name of the source path or below it has a magic character of
  \<^verbatim>\<open>filepath.Glob\<close>, so that listing a source directory gives its children.
\<close>

definition noclash :: "(string \<Rightarrow> bool) \<Rightarrow> string \<Rightarrow> path \<Rightarrow> state \<Rightarrow> bool" where
  "noclash f m S st = (f m \<longrightarrow> (\<forall>r. look st (S @ r @ [m]) = None))"

definition noglob :: "path \<Rightarrow> state \<Rightarrow> bool" where
  "noglob S st = ((\<forall>c\<in>set S. \<not> hasMeta c) \<and>
     (\<forall>r. look st (S @ r) \<noteq> None \<longrightarrow> (\<forall>c\<in>set r. \<not> hasMeta c)))"

definition source_ok :: "(string \<Rightarrow> bool) \<Rightarrow> string \<Rightarrow> path \<Rightarrow> state \<Rightarrow> bool" where
  "source_ok f m S st = (noclash f m S st \<and> noglob S st)"

definition disjoint_trees :: "path \<Rightarrow> path \<Rightarrow> bool" where
  "disjoint_trees S D = (\<not> prefix D S \<and> \<not> prefix S D)"

lemma disjoint_trees_src: "disjoint_trees S D \<Longrightarrow> prefix S q \<Longrightarrow> \<not> prefix D q"
  unfolding disjoint_trees_def using prefix_same_cases by blast

lemma disjoint_trees_child: "disjoint_trees S D \<Longrightarrow> disjoint_trees (S @ [n]) (D @ [n])"
  unfolding disjoint_trees_def
  by (metis append_prefixD prefix_order.dual_order.refl prefix_snoc same_prefix_prefix)

lemma frame_src_eq:
  "disjoint_trees S D \<Longrightarrow> \<forall>q. \<not> prefix D q \<longrightarrow> look st' q = look st q \<Longrightarrow> src_eq S st st'"
  by (simp add: src_eq_def disjoint_trees_src)

lemma src_eq_trans: "src_eq S st st1 \<Longrightarrow> src_eq S st1 st2 \<Longrightarrow> src_eq S st st2"
  by (simp add: src_eq_def)

lemma src_eq_sym: "src_eq S st st1 \<Longrightarrow> src_eq S st1 st"
  by (simp add: src_eq_def)

lemma source_ok_src_eq: "src_eq S st st' \<Longrightarrow> source_ok f m S st \<Longrightarrow> source_ok f m S st'"
  by (simp add: source_ok_def noclash_def noglob_def src_eq_def)

lemma source_ok_plain: "source_ok f m S st \<Longrightarrow> \<forall>c\<in>set S. \<not> hasMeta c"
  by (simp add: source_ok_def noglob_def)

lemma source_ok_child:
  assumes "source_ok f m S st" "look st (S @ [n]) \<noteq> None"
  shows "source_ok f m (S @ [n]) st"
proof -
  from assms(1) have a: "noclash f m S st" and b: "noglob S st" by (simp_all add: source_ok_def)
  have "noclash f m (S @ [n]) st"
    unfolding noclash_def
  proof (intro impI allI)
    fix r assume "f m"
    with a have "look st (S @ (n # r) @ [m]) = None" unfolding noclash_def by blast
    then show "look st ((S @ [n]) @ r @ [m]) = None" by simp
  qed
  moreover have "noglob (S @ [n]) st"
    unfolding noglob_def
  proof (intro conjI allI impI)
    from b assms(2) have "\<forall>c\<in>set [n]. \<not> hasMeta c" unfolding noglob_def by blast
    with b show "\<forall>c\<in>set (S @ [n]). \<not> hasMeta c" by (auto simp: noglob_def)
  next
    fix r assume "look st ((S @ [n]) @ r) \<noteq> None"
    then have "look st (S @ (n # r)) \<noteq> None" by simp
    with b have "\<forall>c\<in>set (n # r). \<not> hasMeta c" unfolding noglob_def by blast
    then show "\<forall>c\<in>set r. \<not> hasMeta c" by simp
  qed
  ultimately show ?thesis by (simp add: source_ok_def)
qed

lemma source_ok_name: "source_ok f m S st \<Longrightarrow> f n \<Longrightarrow> look st (S @ [n]) \<noteq> None \<Longrightarrow> n \<noteq> m"
proof
  assume a: "source_ok f m S st" "f n" "look st (S @ [n]) \<noteq> None" "n = m"
  then have "look st (S @ [] @ [m]) = None" unfolding source_ok_def noclash_def by blast
  with a show False by simp
qed

lemma local_manifests_child: "local_manifests D m st \<Longrightarrow> local_manifests (D @ r) m st"
  by (auto simp: local_manifests_def dest: append_prefixD)

lemma local_manifests_step:
  assumes "local_manifests D m st"
    "\<forall>D'. prefix D D' \<longrightarrow> look st' (D' @ [m]) = look st (D' @ [m]) \<or>
        local_records D' (old_records st' (D' @ [m]))"
  shows "local_manifests D m st'"
  unfolding local_manifests_def
proof (intro allI impI)
  fix D' assume p: "prefix D D'"
  with assms(2) have "look st' (D' @ [m]) = look st (D' @ [m]) \<or>
        local_records D' (old_records st' (D' @ [m]))" by blast
  then show "local_records D' (old_records st' (D' @ [m]))"
  proof
    assume "look st' (D' @ [m]) = look st (D' @ [m])"
    then have "old_records st' (D' @ [m]) = old_records st (D' @ [m])"
      by (simp add: old_records_def)
    with assms(1) p show ?thesis by (simp add: local_manifests_def)
  qed
qed

lemma old_records_None [simp]: "look st P = None \<Longrightarrow> old_records st P = []"
  by (simp add: old_records_def)

lemma local_records_Nil [simp]: "local_records D []"
  by (simp add: local_records_def)

lemma file_no_children:
  assumes "good st" "look st p = Some (File pm c)" "r \<noteq> []"
  shows "look st (p @ r) = None"
proof -
  from assms(2) have "\<not> dirp st p" by (simp add: dirp_def)
  from good_absent_below [OF assms(1) this assms(3)] show ?thesis .
qed

lemma step_file:
  assumes g: "good st" and vS: "valid_path S" and vD: "valid_path D" and vm: "valid_name m"
    and loc: "local_manifests D m st" and nc: "source_ok f m S st"
    and vn: "valid_name n" and fn: "f n"
    and h: "fileHandle man = Some h" "hpath h = D @ [m]" "hoffset h = length c0"
    and l: "look st (D @ [m]) = Some (File pmm c0)"
    and gr: "gob_whole c0"
    and cf: "CopyFile (S @ [n]) (D @ [n]) st = (st2, None)"
    and af: "AddFile man (path_string (D @ [n])) st2 = (st3, man', None)"
  shows "n \<noteq> m \<and> is_file (look st (S @ [n])) \<and> good st3 \<and> local_manifests D m st3 \<and>
    (\<forall>q. q \<noteq> D @ [n] \<longrightarrow> q \<noteq> D @ [m] \<longrightarrow> look st3 q = look st q) \<and>
    look st3 (D @ [n]) = child_expected f m st S D (\<lambda>r. look st (D @ r)) n [] \<and>
    look st3 (D @ [m]) = Some (File pmm (c0 @ gob_message (path_string (D @ [n])))) \<and>
    (\<exists>h'. fileHandle man' = Some h' \<and> hpath h' = D @ [m] \<and>
          hoffset h' = length (c0 @ gob_message (path_string (D @ [n])))) \<and>
    enc_ok (path_string (D @ [n])) \<and>
    gob_whole (c0 @ gob_message (path_string (D @ [n])))"
proof -
  have vSn: "valid_path (S @ [n])" and vDn: "valid_path (D @ [n])" using vS vD vn by simp_all
  from CopyFile_good [OF g vSn vDn _ cf]
  obtain pm c where src: "look st (S @ [n]) = Some (File pm c)"
    and dD: "dirp st D" and ndn: "\<not> dirp st (D @ [n])"
    and st2: "st2 = put st (D @ [n]) (File (case look st (D @ [n]) of Some (File pm0 bs) \<Rightarrow> pm0 | _ \<Rightarrow> pm) c)"
    by auto
  from source_ok_name [OF nc fn] src have nm: "n \<noteq> m" by simp
  define pm' where "pm' = (case look st (D @ [n]) of Some (File pm0 bs) \<Rightarrow> pm0 | _ \<Rightarrow> pm)"
  have st2': "st2 = put st (D @ [n]) (File pm' c)" using st2 by (simp add: pm'_def)
  have g2: "good st2" unfolding st2'
    by (rule good_put [OF g vDn _ _ ndn]) (use dD in simp_all)
  have l2: "\<And>q. look st2 q = (if q = D @ [n] then Some (File pm' c) else look st q)"
    unfolding st2' by (simp add: look_put)
  have lm2: "look st2 (D @ [m]) = Some (File pmm c0)" using l2 l nm by simp
  from AddFile_good [OF g2 h lm2 af]
  have ok: "enc_ok (path_string (D @ [n]))" and g3: "good st3"
    and l3: "\<forall>q. look st3 q = (if q = D @ [m] then Some (File pmm (c0 @ gob_message (path_string (D @ [n]))))
                 else look st2 q)"
    and h': "\<exists>h'. fileHandle man' = Some h' \<and> hpath h' = D @ [m] \<and>
          hoffset h' = length (c0 @ gob_message (path_string (D @ [n])))"
    by simp_all
  have recs: "gob_records (c0 @ gob_message (path_string (D @ [n]))) =
      (fst (gob_records c0) @ [path_string (D @ [n])], None)"
    using gob_records_append [OF gr ok] by simp
  have whole: "gob_whole (c0 @ gob_message (path_string (D @ [n])))"
    by (rule gob_whole_append [OF gr ok])
  have lr0: "local_records D (fst (gob_records c0))"
    using loc l unfolding local_manifests_def old_records_def
    by (metis (no_types, lifting) node.simps(10) option.simps(5) prefix_order.order_refl)
  have lrn: "local_records D (old_records st3 (D @ [m]))"
    using l3 recs lr0 vn by (auto simp: old_records_def local_records_def)
  have loc3: "local_manifests D m st3"
  proof (rule local_manifests_step [OF loc], intro allI impI)
    fix D' assume "prefix D D'"
    show "look st3 (D' @ [m]) = look st (D' @ [m]) \<or> local_records D' (old_records st3 (D' @ [m]))"
    proof (cases "D' = D")
      case True
      with lrn show ?thesis by simp
    next
      case False
      then have "D' @ [m] \<noteq> D @ [m]" by simp
      moreover have "D' @ [m] \<noteq> D @ [n]" using nm by simp
      ultimately show ?thesis using l3 l2 by simp
    qed
  qed
  have ce: "child_expected f m st S D (\<lambda>r. look st (D @ r)) n [] = Some (File pm' c)"
    by (simp add: child_expected_def src pm'_def)
  have fr: "\<forall>q. q \<noteq> D @ [n] \<longrightarrow> q \<noteq> D @ [m] \<longrightarrow> look st3 q = look st q"
    using l3 l2 by simp
  have ln: "look st3 (D @ [n]) = Some (File pm' c)" using l3 l2 nm by simp
  have lmm: "look st3 (D @ [m]) = Some (File pmm (c0 @ gob_message (path_string (D @ [n]))))"
    using l3 by simp
  show ?thesis
    using nm src g3 loc3 fr ln ce lmm h' ok whole by simp
qed


text \<open>
  The conditions under which a run is described below: the filesystem has no symbolic
  link and every entry has a directory as its parent; the source and destination paths
  and the manifest name are clean; neither tree lies in the other; every manifest under
  the destination records entries of its own directory only; no entry under the source
  that the filter accepts is named like the manifest; no name of the source path or under
  it has one of the characters \<^verbatim>\<open>* ? [ \\<close>.
\<close>

definition hyps :: "(string \<Rightarrow> bool) \<Rightarrow> string \<Rightarrow> path \<Rightarrow> path \<Rightarrow> state \<Rightarrow> bool" where
  "hyps f m S D st =
     (good st \<and> valid_path S \<and> valid_path D \<and> valid_name m \<and> disjoint_trees S D \<and>
      local_manifests D m st \<and> source_ok f m S st)"

definition post :: "(string \<Rightarrow> bool) \<Rightarrow> string \<Rightarrow> path \<Rightarrow> path \<Rightarrow> state \<Rightarrow> state \<Rightarrow> bool" where
  "post f m S D st st' =
     (good st' \<and> local_manifests D m st' \<and>
      (\<forall>q. \<not> prefix D q \<longrightarrow> look st' q = look st q) \<and>
      (\<forall>rel. look st' (D @ rel) = expected f m st S D (\<lambda>r. look st (D @ r)) rel) \<and>
      encodable f st S D)"

definition C_spec :: "(string \<Rightarrow> bool) \<Rightarrow> string \<Rightarrow> nat \<Rightarrow> bool" where
  "C_spec f m k =
     (\<forall>S D st st'. hyps f m S D st \<longrightarrow>
        CopyFolderContentsWithFilter k S D m f st = Some (st', None) \<longrightarrow> post f m S D st st')"

lemma step_dir:
  assumes C: "C_spec f m k"
    and g: "good st" and vS: "valid_path S" and vD: "valid_path D" and vm: "valid_name m"
    and dj: "disjoint_trees S D"
    and loc: "local_manifests D m st" and nc: "source_ok f m S st" and dD: "dirp st D"
    and vn: "valid_name n" and fn: "f n" and src: "look st (S @ [n]) = Some (Dir pm)"
    and mk: "os_MkdirAll (D @ [n]) pm st = (st1, None)"
    and run: "CopyFolderContentsWithFilter k (S @ [n]) (D @ [n]) m f st1 = Some (st2, None)"
  shows "n \<noteq> m \<and> good st2 \<and> local_manifests D m st2 \<and>
    (\<forall>q. \<not> prefix (D @ [n]) q \<longrightarrow> look st2 q = look st q) \<and>
    (\<forall>r. look st2 (D @ n # r) = child_expected f m st S D (\<lambda>r. look st (D @ r)) n r) \<and>
    encodable f st (S @ [n]) (D @ [n])"
proof -
  have vSn: "valid_path (S @ [n])" and vDn: "valid_path (D @ [n])" using vS vD vn by simp_all
  from source_ok_name [OF nc fn] src have nm: "n \<noteq> m" by simp
  define old_n where "old_n = (case look st (D @ [n]) of None \<Rightarrow> Some (Dir pm) | Some nd \<Rightarrow> Some nd)"
  have dD': "dirp st (butlast (D @ [n]))" using dD by simp
  from os_MkdirAll_good [OF g vDn _ dD' mk]
  have cases: "(dirp st (D @ [n]) \<and> st1 = st) \<or> (look st (D @ [n]) = None \<and> st1 = put st (D @ [n]) (Dir pm))"
    by simp
  have g1: "good st1"
  proof -
    from cases show ?thesis
    proof
      assume "dirp st (D @ [n]) \<and> st1 = st"
      with g show ?thesis by simp
    next
      assume a: "look st (D @ [n]) = None \<and> st1 = put st (D @ [n]) (Dir pm)"
      then have "\<not> dirp st (D @ [n])" by (simp add: dirp_def)
      from good_put [OF g vDn _ dD' this, of "Dir pm"] a show ?thesis by simp
    qed
  qed
  have l1: "\<And>q. look st1 q = (if q = D @ [n] then old_n else look st q)"
  proof -
    fix q
    from cases show "look st1 q = (if q = D @ [n] then old_n else look st q)"
    proof
      assume "dirp st (D @ [n]) \<and> st1 = st"
      then show ?thesis by (auto simp: old_n_def dirp_def)
    next
      assume "look st (D @ [n]) = None \<and> st1 = put st (D @ [n]) (Dir pm)"
      then show ?thesis by (simp add: old_n_def look_put)
    qed
  qed
  have nps: "\<And>q. prefix S q \<Longrightarrow> q \<noteq> D @ [n]"
  proof
    fix q assume "prefix S q" "q = D @ [n]"
    with disjoint_trees_src [OF dj, of q] show False by simp
  qed
  have se1: "src_eq S st st1" unfolding src_eq_def using l1 nps by simp
  have dj1: "disjoint_trees (S @ [n]) (D @ [n])" by (rule disjoint_trees_child [OF dj])
  have loc1: "local_manifests (D @ [n]) m st1"
  proof (rule local_manifests_step [OF local_manifests_child [OF loc, of "[n]"]], intro allI impI)
    fix D' assume "prefix (D @ [n]) D'"
    have "D' @ [m] \<noteq> D @ [n]" using nm by simp
    then have "look st1 (D' @ [m]) = look st (D' @ [m])"
      by (simp only: l1 if_False)
    then show "look st1 (D' @ [m]) = look st (D' @ [m]) \<or> local_records D' (old_records st1 (D' @ [m]))"
      ..
  qed
  have nc1: "source_ok f m (S @ [n]) st1"
  proof -
    have "look st1 (S @ [n]) \<noteq> None" using src_eq_look [OF se1, of "[n]"] src by simp
    from source_ok_child [OF source_ok_src_eq [OF se1 nc] this] show ?thesis .
  qed
  have "hyps f m (S @ [n]) (D @ [n]) st1"
    unfolding hyps_def using g1 vSn vDn vm dj1 loc1 nc1 by simp
  with C run have p: "post f m (S @ [n]) (D @ [n]) st1 st2"
    unfolding C_spec_def by blast
  then have g2: "good st2" and loc2n: "local_manifests (D @ [n]) m st2"
    and fr2: "\<forall>q. \<not> prefix (D @ [n]) q \<longrightarrow> look st2 q = look st1 q"
    and ex2: "\<forall>rel. look st2 ((D @ [n]) @ rel) =
        expected f m st1 (S @ [n]) (D @ [n]) (\<lambda>r. look st1 ((D @ [n]) @ r)) rel"
    and en2: "encodable f st1 (S @ [n]) (D @ [n])"
    unfolding post_def by simp_all
  have fr: "\<forall>q. \<not> prefix (D @ [n]) q \<longrightarrow> look st2 q = look st q"
  proof (intro allI impI)
    fix q assume a: "\<not> prefix (D @ [n]) q"
    then have "q \<noteq> D @ [n]" by auto
    with fr2 a l1 show "look st2 q = look st q" by simp
  qed
  have sen: "src_eq (S @ [n]) st st1" by (rule src_eq_child [OF se1])
  have view: "(\<lambda>r. look st1 ((D @ [n]) @ r)) =
      (\<lambda>r. if r = [] then (case look st (D @ [n]) of None \<Rightarrow> Some (Dir pm) | Some nd \<Rightarrow> Some nd)
           else look st (D @ n # r))"
    by (rule ext) (simp add: l1 old_n_def)
  have ce: "\<forall>r. look st2 (D @ n # r) = child_expected f m st S D (\<lambda>r. look st (D @ r)) n r"
  proof
    fix r
    have "look st2 (D @ n # r) = expected f m st1 (S @ [n]) (D @ [n]) (\<lambda>r. look st1 ((D @ [n]) @ r)) r"
      using ex2 [rule_format, of r] by simp
    also have "\<dots> = expected f m st (S @ [n]) (D @ [n]) (\<lambda>r. look st1 ((D @ [n]) @ r)) r"
      by (rule src_eq_expected [OF sen])
    also have "\<dots> = child_expected f m st S D (\<lambda>r. look st (D @ r)) n r"
      unfolding view by (simp add: child_expected_def src)
    finally show "look st2 (D @ n # r) = child_expected f m st S D (\<lambda>r. look st (D @ r)) n r" .
  qed
  have loc2: "local_manifests D m st2"
    unfolding local_manifests_def
  proof (intro allI impI)
    fix D' assume p: "prefix D D'"
    show "local_records D' (old_records st2 (D' @ [m]))"
    proof (cases "prefix (D @ [n]) D'")
      case True
      with loc2n show ?thesis by (simp add: local_manifests_def)
    next
      case False
      have "\<not> prefix (D @ [n]) (D' @ [m])"
      proof
        assume "prefix (D @ [n]) (D' @ [m])"
        then have "D @ [n] = D' @ [m] \<or> prefix (D @ [n]) D'" by (simp add: prefix_snoc)
        with False nm show False by simp
      qed
      with fr have "look st2 (D' @ [m]) = look st (D' @ [m])" by simp
      then have "old_records st2 (D' @ [m]) = old_records st (D' @ [m])"
        by (simp add: old_records_def)
      with loc p show ?thesis by (simp add: local_manifests_def)
    qed
  qed
  have en: "encodable f st (S @ [n]) (D @ [n])"
    using en2 src_eq_encodable [OF sen] by simp
  show ?thesis using nm g2 loc2 fr ce en by simp
qed

section \<open>The loop over the children\<close>

definition recs_of :: "(string \<Rightarrow> bool) \<Rightarrow> state \<Rightarrow> path \<Rightarrow> path \<Rightarrow> string list \<Rightarrow> string list" where
  "recs_of f st S D ns =
     map (\<lambda>n. path_string (D @ [n])) (filter (\<lambda>n. f n \<and> is_file (look st (S @ [n]))) ns)"

definition loop_post ::
  "(string \<Rightarrow> bool) \<Rightarrow> string \<Rightarrow> path \<Rightarrow> path \<Rightarrow> state \<Rightarrow> string list \<Rightarrow> perm \<Rightarrow> string \<Rightarrow> state
     \<Rightarrow> bool" where
  "loop_post f m S D st ns pmm c0 st' =
     (good st' \<and> local_manifests D m st' \<and>
      (\<forall>q. \<not> prefix D q \<longrightarrow> look st' q = look st q) \<and> look st' D = look st D \<and>
      look st' (D @ [m]) = Some (File pmm (c0 @ concat (map gob_message (recs_of f st S D ns)))) \<and>
      (\<forall>x r. x \<noteq> m \<longrightarrow> look st' (D @ x # r) =
         (if x \<in> set ns \<and> f x then child_expected f m st S D (\<lambda>r. look st (D @ r)) x r
          else look st (D @ x # r))) \<and>
      (\<forall>n\<in>set ns. f n \<longrightarrow> is_file (look st (S @ [n])) \<longrightarrow> enc_ok (path_string (D @ [n]))) \<and>
      (\<forall>n\<in>set ns. f n \<longrightarrow> dirp st (S @ [n]) \<longrightarrow> encodable f st (S @ [n]) (D @ [n])))"

lemma src_eq_recs_of: "src_eq S st st' \<Longrightarrow> recs_of f st' S D ns = recs_of f st S D ns"
  by (simp add: recs_of_def src_eq_look)

lemma loop_post_transfer:
  assumes IH: "loop_post f m S D stX ns pmm cX st'"
    and se: "src_eq S st stX"
    and fr: "\<forall>q. \<not> prefix D q \<longrightarrow> look stX q = look st q"
    and lD: "look stX D = look st D"
    and oth: "\<forall>x r. x \<noteq> m \<longrightarrow> x \<noteq> n \<longrightarrow> look stX (D @ x # r) = look st (D @ x # r)"
    and nn: "n \<notin> set ns" "n \<noteq> m"
    and chn: "\<forall>r. look stX (D @ n # r) =
        (if f n then child_expected f m st S D (\<lambda>r. look st (D @ r)) n r else look st (D @ n # r))"
    and man: "cX = c0 @ concat (map gob_message (recs_of f st S D [n]))"
    and encn: "f n \<longrightarrow> is_file (look st (S @ [n])) \<longrightarrow> enc_ok (path_string (D @ [n]))"
    and encd: "f n \<longrightarrow> dirp st (S @ [n]) \<longrightarrow> encodable f st (S @ [n]) (D @ [n])"
  shows "loop_post f m S D st (n # ns) pmm c0 st'"
proof -
  from IH have g: "good st'" and loc: "local_manifests D m st'"
    and f1: "\<forall>q. \<not> prefix D q \<longrightarrow> look st' q = look stX q"
    and d1: "look st' D = look stX D"
    and m1: "look st' (D @ [m]) = Some (File pmm (cX @ concat (map gob_message (recs_of f stX S D ns))))"
    and c1: "\<forall>x r. x \<noteq> m \<longrightarrow> look st' (D @ x # r) =
         (if x \<in> set ns \<and> f x then child_expected f m stX S D (\<lambda>r. look stX (D @ r)) x r
          else look stX (D @ x # r))"
    and e1: "\<forall>n\<in>set ns. f n \<longrightarrow> is_file (look stX (S @ [n])) \<longrightarrow> enc_ok (path_string (D @ [n]))"
    and e2: "\<forall>n\<in>set ns. f n \<longrightarrow> dirp stX (S @ [n]) \<longrightarrow> encodable f stX (S @ [n]) (D @ [n])"
    unfolding loop_post_def by simp_all
  have r: "recs_of f st S D (n # ns) = recs_of f st S D [n] @ recs_of f st S D ns"
    by (simp add: recs_of_def)
  have m2: "look st' (D @ [m]) = Some (File pmm (c0 @ concat (map gob_message (recs_of f st S D (n # ns)))))"
    using m1 by (simp add: man r src_eq_recs_of [OF se])
  have c2: "\<forall>x r. x \<noteq> m \<longrightarrow> look st' (D @ x # r) =
         (if x \<in> set (n # ns) \<and> f x then child_expected f m st S D (\<lambda>r. look st (D @ r)) x r
          else look st (D @ x # r))"
  proof (intro allI impI)
    fix x r assume xm: "x \<noteq> m"
    show "look st' (D @ x # r) =
         (if x \<in> set (n # ns) \<and> f x then child_expected f m st S D (\<lambda>r. look st (D @ r)) x r
          else look st (D @ x # r))"
    proof (cases "x = n")
      case True
      with c1 [rule_format, OF xm, of r] nn(1) chn [rule_format, of r] show ?thesis by simp
    next
      case False
      have o: "\<forall>r. look stX (D @ x # r) = look st (D @ x # r)"
        using oth xm False by simp
      have "child_expected f m stX S D (\<lambda>r. look stX (D @ r)) x r =
            child_expected f m st S D (\<lambda>r. look st (D @ r)) x r"
        by (rule src_eq_child_expected [OF se]) (use o in simp)
      with c1 [rule_format, OF xm, of r] False o show ?thesis by simp
    qed
  qed
  have e1': "\<forall>x\<in>set (n # ns). f x \<longrightarrow> is_file (look st (S @ [x])) \<longrightarrow> enc_ok (path_string (D @ [x]))"
    using e1 encn by (simp add: src_eq_look [OF se])
  have e2': "\<forall>x\<in>set (n # ns). f x \<longrightarrow> dirp st (S @ [x]) \<longrightarrow> encodable f st (S @ [x]) (D @ [x])"
    using e2 encd src_eq_encodable [OF src_eq_child [OF se]] src_eq_dirp [OF se] by simp
  show ?thesis
    unfolding loop_post_def
    using g loc f1 fr d1 lD m2 c2 e1' e2' by simp
qed


lemma loop_post_Nil:
  assumes "good st" "local_manifests D m st" "look st (D @ [m]) = Some (File pmm c0)"
  shows "loop_post f m S D st [] pmm c0 st"
  using assms by (simp add: loop_post_def recs_of_def)

lemma prefix_child_neq: "x \<noteq> n \<Longrightarrow> \<not> prefix (D @ [n]) (D @ x # r)"
  by simp

lemma loop_spec:
  assumes C: "C_spec f m k"
    and vS: "valid_path S" and vD: "valid_path D" and vm: "valid_name m"
    and dj: "disjoint_trees S D"
  shows "good st \<Longrightarrow> local_manifests D m st \<Longrightarrow> source_ok f m S st \<Longrightarrow> dirp st D \<Longrightarrow>
     distinct ns \<Longrightarrow> \<forall>n\<in>set ns. valid_name n \<Longrightarrow>
     fileHandle man = Some h \<Longrightarrow> hpath h = D @ [m] \<Longrightarrow> hoffset h = length c0 \<Longrightarrow>
     look st (D @ [m]) = Some (File pmm c0) \<Longrightarrow> gob_whole c0 \<Longrightarrow>
     copy_loop k (map (\<lambda>n. S @ [n]) ns) S D m f man st = Some (st', man', None) \<Longrightarrow>
     loop_post f m S D st ns pmm c0 st'"
proof (induction ns arbitrary: st man h c0)
  case Nil
  from Nil.prems(12) have "st' = st" by (simp add: copy_loop.simps)
  with loop_post_Nil [OF Nil.prems(1,2,10)] show ?case by simp
next
  case (Cons n ns)
  note g = Cons.prems(1) and loc = Cons.prems(2) and nc = Cons.prems(3) and dD = Cons.prems(4)
    and hd = Cons.prems(7,8,9) and lm = Cons.prems(10) and gr = Cons.prems(11)
  from Cons.prems(5) have nn: "n \<notin> set ns" and dn: "distinct ns" by simp_all
  from Cons.prems(6) have vn: "valid_name n" and vns: "\<forall>n\<in>set ns. valid_name n" by simp_all
  have vSn: "valid_path (S @ [n])" and vDn: "valid_path (D @ [n])" using vS vD vn by simp_all
  have rel: "GetPathRelativeTo (S @ [n]) S = n" by (rule GetPathRelativeTo_child)
  have jn: "filepath_Join D n = D @ [n]" by (rule filepath_Join_valid [OF vD vn])
  have nS: "\<And>q. prefix S q \<Longrightarrow> \<not> prefix D q" by (rule disjoint_trees_src [OF dj])
  note run = Cons.prems(12)
  show ?case
  proof (cases "f n")
    case False
    with run have r: "copy_loop k (map (\<lambda>n. S @ [n]) ns) S D m f man st = Some (st', man', None)"
      by (simp add: copy_loop.simps rel)
    have IH: "loop_post f m S D st ns pmm c0 st'"
      by (rule Cons.IH [OF g loc nc dD dn vns hd lm gr r])
    have nm: "n \<noteq> m \<or> n = m" by simp
    show ?thesis
    proof (cases "n = m")
      case True
      from IH show ?thesis
        unfolding loop_post_def using False True by (simp add: recs_of_def)
    next
      case nm: False
      show ?thesis
        by (rule loop_post_transfer [OF IH _ _ _ _ nn nm])
           (use False in \<open>simp_all add: recs_of_def\<close>)
    qed
  next
    case fn: True
    show ?thesis
    proof (cases "dirp st (S @ [n])")
      case True
      then obtain pm where src: "look st (S @ [n]) = Some (Dir pm)" by (auto simp: dirp_def)
      have isd: "IsDir st (S @ [n])" using IsDir_good [OF g vSn] True by simp
      have ls: "os_Lstat st (S @ [n]) = Inr (Dir pm)" by (rule os_Lstat_Some [OF g src])
      from run fn isd ls obtain st1 st2 where
        mk: "os_MkdirAll (D @ [n]) pm st = (st1, None)"
        and rc: "CopyFolderContentsWithFilter k (S @ [n]) (D @ [n]) m f st1 = Some (st2, None)"
        and r: "copy_loop k (map (\<lambda>n. S @ [n]) ns) S D m f man st2 = Some (st', man', None)"
        by (auto simp: copy_loop.simps rel jn split: prod.splits option.splits)
      from step_dir [OF C g vS vD vm dj loc nc dD vn fn src mk rc]
      have nm: "n \<noteq> m" and g2: "good st2" and loc2: "local_manifests D m st2"
        and fr2: "\<forall>q. \<not> prefix (D @ [n]) q \<longrightarrow> look st2 q = look st q"
        and ce: "\<forall>r. look st2 (D @ n # r) = child_expected f m st S D (\<lambda>r. look st (D @ r)) n r"
        and en: "encodable f st (S @ [n]) (D @ [n])"
        by simp_all
      have frD: "\<forall>q. \<not> prefix D q \<longrightarrow> look st2 q = look st q"
      proof (intro allI impI)
        fix q assume "\<not> prefix D q"
        then have "\<not> prefix (D @ [n]) q" using append_prefixD by blast
        with fr2 show "look st2 q = look st q" by simp
      qed
      have se: "src_eq S st st2" by (rule frame_src_eq [OF dj frD])
      have lD: "look st2 D = look st D" using fr2 by simp
      have lm2: "look st2 (D @ [m]) = Some (File pmm c0)" using fr2 nm lm by simp
      have dD2: "dirp st2 D" using dD lD by (simp add: dirp_def)
      have nc2: "source_ok f m S st2" by (rule source_ok_src_eq [OF se nc])
      have IH: "loop_post f m S D st2 ns pmm c0 st'"
        by (rule Cons.IH [OF g2 loc2 nc2 dD2 dn vns hd(1,2,3) lm2 gr r])
      have oth: "\<forall>x r. x \<noteq> m \<longrightarrow> x \<noteq> n \<longrightarrow> look st2 (D @ x # r) = look st (D @ x # r)"
        using fr2 by simp
      have nf: "\<not> is_file (look st (S @ [n]))" using src by simp
      show ?thesis
        by (rule loop_post_transfer [OF IH se frD lD oth nn nm])
           (use ce fn nf en in \<open>simp_all add: recs_of_def\<close>)
    next
      case False
      have isd: "\<not> IsDir st (S @ [n])" using IsDir_good [OF g vSn] False by simp
      have mkD: "os_MkdirAll D perm_0700 st = (st, None)" by (rule os_MkdirAll_existing [OF g dD])
      from run fn isd mkD obtain st2 st3 man2 where
        cf: "CopyFile (S @ [n]) (D @ [n]) st = (st2, None)"
        and af: "AddFile man (path_string (D @ [n])) st2 = (st3, man2, None)"
        and r: "copy_loop k (map (\<lambda>n. S @ [n]) ns) S D m f man2 st3 = Some (st', man', None)"
        by (auto simp: copy_loop.simps rel jn filepath_Dir_def split: prod.splits option.splits)
      define c1 where "c1 = c0 @ gob_message (path_string (D @ [n]))"
      from step_file [OF g vS vD vm loc nc vn fn hd lm gr cf af]
      have nm: "n \<noteq> m" and isf: "is_file (look st (S @ [n]))" and g3: "good st3"
        and loc3: "local_manifests D m st3"
        and fr3: "\<forall>q. q \<noteq> D @ [n] \<longrightarrow> q \<noteq> D @ [m] \<longrightarrow> look st3 q = look st q"
        and ln: "look st3 (D @ [n]) = child_expected f m st S D (\<lambda>r. look st (D @ r)) n []"
        and lm3: "look st3 (D @ [m]) = Some (File pmm c1)"
        and h3: "\<exists>h'. fileHandle man2 = Some h' \<and> hpath h' = D @ [m] \<and> hoffset h' = length c1"
        and ok: "enc_ok (path_string (D @ [n]))"
        and gr3: "gob_whole c1"
        unfolding c1_def by simp_all
      from h3 obtain h' where h': "fileHandle man2 = Some h'" "hpath h' = D @ [m]" "hoffset h' = length c1"
        by auto
      have frD: "\<forall>q. \<not> prefix D q \<longrightarrow> look st3 q = look st q"
      proof (intro allI impI)
        fix q assume a: "\<not> prefix D q"
        then have "q \<noteq> D @ [n]" "q \<noteq> D @ [m]" by auto
        with fr3 show "look st3 q = look st q" by simp
      qed
      have se: "src_eq S st st3" by (rule frame_src_eq [OF dj frD])
      have lD: "look st3 D = look st D" using fr3 by simp
      have dD3: "dirp st3 D" using dD lD by (simp add: dirp_def)
      have nc3: "source_ok f m S st3" by (rule source_ok_src_eq [OF se nc])
      have IH: "loop_post f m S D st3 ns pmm c1 st'"
        by (rule Cons.IH [OF g3 loc3 nc3 dD3 dn vns h' lm3 gr3 r])
      have oth: "\<forall>x r. x \<noteq> m \<longrightarrow> x \<noteq> n \<longrightarrow> look st3 (D @ x # r) = look st (D @ x # r)"
        using fr3 by simp
      from isf obtain pm c where src: "look st (S @ [n]) = Some (File pm c)"
        by (cases "look st (S @ [n])" rule: is_file.cases) auto
      from ln src obtain pm' where fl: "look st3 (D @ [n]) = Some (File pm' c)"
        by (simp add: child_expected_def)
      have chn: "\<forall>r. look st3 (D @ n # r) =
          (if f n then child_expected f m st S D (\<lambda>r. look st (D @ r)) n r else look st (D @ n # r))"
      proof
        fix r
        show "look st3 (D @ n # r) =
          (if f n then child_expected f m st S D (\<lambda>r. look st (D @ r)) n r else look st (D @ n # r))"
        proof (cases "r = []")
          case True
          with ln fn show ?thesis by simp
        next
          case False
          from file_no_children [OF g3 fl False] have "look st3 (D @ n # r) = None" by simp
          with False fn src show ?thesis by (simp add: child_expected_def)
        qed
      qed
      have nd: "\<not> dirp st (S @ [n])" using src by (simp add: dirp_def)
      show ?thesis
        by (rule loop_post_transfer [OF IH se frD lD oth nn nm chn])
           (use fn isf ok nd in \<open>simp_all add: recs_of_def c1_def\<close>)
    qed
  qed
qed

section \<open>A whole run\<close>

lemma Close_look: "Close man st = (st', r) \<Longrightarrow> look st' = look st"
  by (auto simp: Close_def os_File_Close_def split: option.splits if_splits)

lemma children_mem: "n \<in> set (children st S) \<longleftrightarrow> look st (S @ [n]) \<noteq> None"
  by (simp add: children_set)

lemma children_nondir: "good st \<Longrightarrow> \<not> dirp st S \<Longrightarrow> children st S = []"
proof -
  assume "good st" "\<not> dirp st S"
  then have "\<And>n. look st (S @ [n]) = None" by (rule good_absent_below) simp
  then have "set (children st S) = {}" by (simp add: children_set)
  then show ?thesis by simp
qed

lemma local_manifests_look_cong:
  "look st' = look st \<Longrightarrow> local_manifests D m st' = local_manifests D m st"
  by (simp add: local_manifests_def old_records_def)

lemma good_look_eq: "look st' = look st \<Longrightarrow> good st' = good st"
  by (simp add: good_def dirp_def)

lemma prefix_child_iff: "prefix (D @ [n]) (D @ x # r) \<longleftrightarrow> n = x"
  by simp

lemma C_step:
  assumes C: "C_spec f m k"
  shows "C_spec f m (Suc k)"
  unfolding C_spec_def
proof (intro allI impI)
  fix S D st st'
  assume hy: "hyps f m S D st"
    and run: "CopyFolderContentsWithFilter (Suc k) S D m f st = Some (st', None)"
  from hy have g: "good st" and vS: "valid_path S" and vD: "valid_path D" and vm: "valid_name m"
    and dj: "disjoint_trees S D" and loc: "local_manifests D m st" and nc: "source_ok f m S st"
    unfolding hyps_def by simp_all
  have jm: "filepath_Join D m = D @ [m]" by (rule filepath_Join_valid [OF vD vm])
  define recs where "recs = old_records st (D @ [m])"
  from run obtain st1 st2 st3 man man' where
    cl: "Clean (newFileManifest (D @ [m])) st = (st1, None)"
    and cr: "Create (newFileManifest (D @ [m])) st1 = (st2, man, None)"
    and lp0: "case filepath_Glob st2 S of
          Inl err \<Rightarrow> False
        | Inr files \<Rightarrow> copy_loop k files S D m f man st2 = Some (st3, man', None)"
    and cs: "Close man' st3 = (st', None)"
    by (subst (asm) CopyFolderContentsWithFilter.simps)
       (auto simp: jm split: prod.splits option.splits sum.splits)
  have lr: "local_records D (old_records st (D @ [m]))"
    using loc unfolding local_manifests_def by simp
  from Clean_good [OF g vD vm lr cl]
  have g1: "good st1"
    and l1: "\<forall>q. look st1 q =
        (if prefix (D @ [m]) q \<or> (\<exists>n. recorded D recs n \<and> prefix (D @ [n]) q) then None
         else look st q)"
    unfolding recs_def by simp_all
  have l1m: "look st1 (D @ [m]) = None" using l1 by simp
  from Create_good [OF g1 vD vm cr] l1m
  have dD1: "dirp st1 D" and hm: "fileHandle man = Some \<lparr>hpath = D @ [m], hoffset = 0\<rparr>"
    and g2: "good st2"
    and l2: "\<forall>q. look st2 q = (if q = D @ [m] then Some (File perm_0644 []) else look st1 q)"
    by simp_all
  have out1: "\<And>q. \<not> prefix D q \<Longrightarrow> look st1 q = look st q"
  proof -
    fix q assume a: "\<not> prefix D q"
    then have "\<not> prefix (D @ [m]) q" "\<And>n. \<not> prefix (D @ [n]) q"
      using append_prefixD by blast+
    with l1 show "look st1 q = look st q" by simp
  qed
  have out2: "\<forall>q. \<not> prefix D q \<longrightarrow> look st2 q = look st q"
  proof (intro allI impI)
    fix q assume a: "\<not> prefix D q"
    then have "q \<noteq> D @ [m]" by auto
    with l2 out1 [OF a] show "look st2 q = look st q" by simp
  qed
  have se2: "src_eq S st st2" by (rule frame_src_eq [OF dj out2])
  have lD1: "look st1 D = look st D" using l1 by simp
  have lD2: "look st2 D = look st D" using l2 lD1 by simp
  have dD2: "dirp st2 D" using dD1 l2 by (simp add: dirp_def)
  have nc2: "source_ok f m S st2" by (rule source_ok_src_eq [OF se2 nc])
  have loc2: "local_manifests D m st2"
  proof (rule local_manifests_step [OF loc], intro allI impI)
    fix D' assume "prefix D D'"
    show "look st2 (D' @ [m]) = look st (D' @ [m]) \<or> local_records D' (old_records st2 (D' @ [m]))"
    proof (cases "look st2 (D' @ [m]) = look st (D' @ [m])")
      case True
      then show ?thesis ..
    next
      case False
      have "old_records st2 (D' @ [m]) = []"
      proof (cases "D' = D")
        case True
        with l2 show ?thesis by (simp add: old_records_def)
      next
        case nD: False
        then have "look st2 (D' @ [m]) = look st1 (D' @ [m])" using l2 by simp
        with False l1 have "look st2 (D' @ [m]) = None" by (auto split: if_splits)
        then show ?thesis by simp
      qed
      then show ?thesis by simp
    qed
  qed
  define ns where "ns = (if dirp st2 S then children st2 S else [])"
  have gl: "filepath_Glob st2 S = Inr (map (\<lambda>n. S @ [n]) ns)"
    using filepath_Glob_good [OF g2 vS source_ok_plain [OF nc2]] by (simp add: ns_def)
  from lp0 have lp: "copy_loop k (map (\<lambda>n. S @ [n]) ns) S D m f man st2 = Some (st3, man', None)"
    by (simp add: gl)
  have ns_eq: "ns = children st S"
  proof (cases "dirp st S")
    case True
    with src_eq_dirp [OF se2, of "[]"] src_eq_children [OF se2] show ?thesis by (simp add: ns_def)
  next
    case False
    with src_eq_dirp [OF se2, of "[]"] children_nondir [OF g False] show ?thesis by (simp add: ns_def)
  qed
  have dns: "distinct ns" unfolding ns_eq using children_sorted_distinct by simp
  have vns: "\<forall>n\<in>set ns. valid_name n"
  proof
    fix n assume "n \<in> set ns"
    then obtain nd where "look st (S @ [n]) = Some nd" unfolding ns_eq children_mem by auto
    from good_valid [OF g this] show "valid_name n" by simp
  qed
  have lm2: "look st2 (D @ [m]) = Some (File perm_0644 [])" using l2 by simp
  have gr0: "gob_whole []" by simp
  have hm': "hpath \<lparr>hpath = D @ [m], hoffset = 0\<rparr> = D @ [m]"
    "hoffset \<lparr>hpath = D @ [m], hoffset = 0\<rparr> = length ([] :: string)" by simp_all
  note lp' = lp
  have LP: "loop_post f m S D st2 ns perm_0644 [] st3"
    by (rule loop_spec [OF C vS vD vm dj g2 loc2 nc2 dD2 dns vns hm hm' lm2 gr0 lp'])
  then have g3: "good st3" and loc3: "local_manifests D m st3"
    and f3: "\<forall>q. \<not> prefix D q \<longrightarrow> look st3 q = look st2 q"
    and d3: "look st3 D = look st2 D"
    and m3: "look st3 (D @ [m]) = Some (File perm_0644 (concat (map gob_message (recs_of f st2 S D ns))))"
    and c3: "\<forall>x r. x \<noteq> m \<longrightarrow> look st3 (D @ x # r) =
         (if x \<in> set ns \<and> f x then child_expected f m st2 S D (\<lambda>r. look st2 (D @ r)) x r
          else look st2 (D @ x # r))"
    and e3: "\<forall>n\<in>set ns. f n \<longrightarrow> is_file (look st2 (S @ [n])) \<longrightarrow> enc_ok (path_string (D @ [n]))"
    and e4: "\<forall>n\<in>set ns. f n \<longrightarrow> dirp st2 (S @ [n]) \<longrightarrow> encodable f st2 (S @ [n]) (D @ [n])"
    unfolding loop_post_def by simp_all
  have le: "look st' = look st3" by (rule Close_look [OF cs])
  have gE: "good st'" using g3 good_look_eq [OF le] by simp
  have locE: "local_manifests D m st'" using loc3 local_manifests_look_cong [OF le] by simp
  have frE: "\<forall>q. \<not> prefix D q \<longrightarrow> look st' q = look st q"
    using f3 out2 by (simp add: le)
  have mb: "concat (map gob_message (recs_of f st2 S D ns)) = manifest_bytes f st S D"
    unfolding src_eq_recs_of [OF se2]
    by (simp add: recs_of_def manifest_bytes_def accepted_files_def ns_eq comp_def)
  have exE: "\<forall>rel. look st' (D @ rel) = expected f m st S D (\<lambda>r. look st (D @ r)) rel"
  proof
    fix rel
    show "look st' (D @ rel) = expected f m st S D (\<lambda>r. look st (D @ r)) rel"
    proof (cases rel)
      case Nil
      then show ?thesis using d3 lD2 by (simp add: le)
    next
      case (Cons x r)
      have rc: "(case look st (D @ [m]) of Some (File pm c) \<Rightarrow> fst (gob_records c) | _ \<Rightarrow> []) = recs"
        by (simp add: recs_def old_records_def)
      show ?thesis
      proof (cases "x = m")
        case True
        show ?thesis
        proof (cases "r = []")
          case True
          with \<open>x = m\<close> Cons m3 mb show ?thesis by (simp add: le expected_Cons)
        next
          case False
          from file_no_children [OF g3 m3 False] \<open>x = m\<close> Cons False show ?thesis
            by (simp add: le expected_Cons)
        qed
      next
        case xm: False
        define old1 where "old1 = (\<lambda>r. if recorded D recs x then None else look st (D @ r))"
        have v2: "\<forall>r'. look st2 (D @ x # r') = old1 (x # r')"
        proof
          fix r'
          have a: "look st2 (D @ x # r') = look st1 (D @ x # r')" using l2 xm by simp
          have b: "(\<exists>n. recorded D recs n \<and> prefix (D @ [n]) (D @ x # r')) = recorded D recs x"
            by (auto simp: prefix_child_iff)
          have c: "\<not> prefix (D @ [m]) (D @ x # r')" using xm by simp
          show "look st2 (D @ x # r') = old1 (x # r')"
            unfolding a old1_def using l1 [rule_format, of "D @ x # r'"] unfolding b using c by simp
        qed
        have ex: "expected f m st S D (\<lambda>r. look st (D @ r)) (x # r) =
            (if f x then child_expected f m st S D old1 x r else old1 (x # r))"
          using xm by (simp add: expected_Cons rc old1_def)
        show ?thesis
        proof (cases "x \<in> set ns \<and> f x")
          case True
          have "child_expected f m st2 S D (\<lambda>r. look st2 (D @ r)) x r = child_expected f m st S D old1 x r"
            by (rule src_eq_child_expected [OF se2]) (use v2 in simp)
          with c3 [rule_format, OF xm, of r] True ex Cons show ?thesis by (simp add: le)
        next
          case False
          with c3 [rule_format, OF xm, of r] v2 have a: "look st3 (D @ x # r) = old1 (x # r)" by simp
          show ?thesis
          proof (cases "f x")
            case True
            with False have "x \<notin> set ns" by simp
            then have "look st (S @ [x]) = None" unfolding ns_eq children_mem by simp
            then have "child_expected f m st S D old1 x r = old1 (x # r)"
              by (simp add: child_expected_def)
            with a ex True Cons show ?thesis by (simp add: le)
          next
            case False
            with a ex Cons show ?thesis by (simp add: le)
          qed
        qed
      qed
    qed
  qed
  have enE: "encodable f st S D"
    unfolding encodable_def
  proof (intro allI impI)
    fix r n assume v: "visited f st S r" and a: "n \<in> set (accepted_files f st (S @ r))"
    show "enc_ok (path_string (D @ r @ [n]))"
    proof (cases r)
      case Nil
      with a have "n \<in> set ns" "f n" "is_file (look st (S @ [n]))"
        by (simp_all add: accepted_files_def ns_eq)
      with e3 src_eq_look [OF se2, of "[n]"] Nil show ?thesis by simp
    next
      case (Cons x r')
      with v have fx: "f x" and dx: "dirp st (S @ [x])" and v': "visited f st (S @ [x]) r'"
        by simp_all
      from dx have "x \<in> set ns" unfolding ns_eq children_mem by (auto simp: dirp_def)
      with e4 fx dx src_eq_dirp [OF se2, of "[x]"] have "encodable f st2 (S @ [x]) (D @ [x])"
        by simp
      with src_eq_encodable [OF src_eq_child [OF se2, of "[x]"]]
      have "encodable f st (S @ [x]) (D @ [x])" by simp
      with v' a Cons show ?thesis unfolding encodable_def by fastforce
    qed
  qed
  show "post f m S D st st'"
    unfolding post_def using gE locE frE exE enE by simp
qed

lemma C_spec_all: "C_spec f m k"
proof (induction k)
  case 0
  show ?case unfolding C_spec_def
    by (simp add: CopyFolderContentsWithFilter.simps)
next
  case (Suc k)
  then show ?case by (rule C_step)
qed

lemma mirror_post:
  "hyps f m S D st \<Longrightarrow> CopyFolderContentsWithFilter k S D m f st = Some (st', None) \<Longrightarrow>
   post f m S D st st'"
  using C_spec_all [of f m k] unfolding C_spec_def by blast

section \<open>Directories a run visits\<close>

definition view_ok :: "state \<Rightarrow> path \<Rightarrow> (path \<Rightarrow> node option) \<Rightarrow> bool" where
  "view_ok st D old =
     ((\<forall>q. q \<noteq> [] \<longrightarrow> old q = look st (D @ q)) \<or> (\<forall>q. q \<noteq> [] \<longrightarrow> old q = None))"

lemma source_ok_descend:
  "visited f st S r \<Longrightarrow> source_ok f m S st \<Longrightarrow> source_ok f m (S @ r) st"
proof (induction r arbitrary: S)
  case Nil
  then show ?case by simp
next
  case (Cons x r)
  from Cons.prems(1) have d: "dirp st (S @ [x])" and v: "visited f st (S @ [x]) r" by simp_all
  from d have "look st (S @ [x]) \<noteq> None" by (auto simp: dirp_def)
  from Cons.IH [OF v source_ok_child [OF Cons.prems(2) this]] show ?case by simp
qed

lemma expected_visited_view:
  "visited f st S r \<Longrightarrow> source_ok f m S st \<Longrightarrow> view_ok st D old \<Longrightarrow>
   \<exists>old'. view_ok st (D @ r) old' \<and>
     (\<forall>rel. expected f m st S D old (r @ rel) = expected f m st (S @ r) (D @ r) old' rel)"
proof (induction r arbitrary: S D old)
  case Nil
  then show ?case by auto
next
  case (Cons x r)
  from Cons.prems(1) have fx: "f x" and dx: "dirp st (S @ [x])" and v: "visited f st (S @ [x]) r"
    by simp_all
  from dx obtain pm where src: "look st (S @ [x]) = Some (Dir pm)" by (auto simp: dirp_def)
  from source_ok_name [OF Cons.prems(2) fx] src have xm: "x \<noteq> m" by simp
  define recs where "recs = (case old [m] of Some (File pm c) \<Rightarrow> fst (gob_records c) | _ \<Rightarrow> [])"
  define old1 where "old1 = (\<lambda>r. if recorded D recs x then None else old r)"
  define old2 where "old2 = (\<lambda>r. if r = [] then (case old1 [x] of None \<Rightarrow> Some (Dir pm) | Some nd \<Rightarrow> Some nd)
                 else old1 (x # r))"
  have e: "\<And>rest. expected f m st S D old (x # rest) = expected f m st (S @ [x]) (D @ [x]) old2 rest"
    unfolding old2_def old1_def recs_def using xm fx src
    by (simp add: expected_Cons child_expected_def)
  have vo: "view_ok st (D @ [x]) old2"
  proof (cases "recorded D recs x")
    case True
    then show ?thesis by (simp add: view_ok_def old2_def old1_def)
  next
    case False
    from Cons.prems(3) show ?thesis
      unfolding view_ok_def
    proof
      assume "\<forall>q. q \<noteq> [] \<longrightarrow> old q = look st (D @ q)"
      with False have "\<forall>q. q \<noteq> [] \<longrightarrow> old2 q = look st ((D @ [x]) @ q)"
        by (simp add: old2_def old1_def)
      then show "(\<forall>q. q \<noteq> [] \<longrightarrow> old2 q = look st ((D @ [x]) @ q)) \<or> (\<forall>q. q \<noteq> [] \<longrightarrow> old2 q = None)" ..
    next
      assume "\<forall>q. q \<noteq> [] \<longrightarrow> old q = None"
      then have "\<forall>q. q \<noteq> [] \<longrightarrow> old2 q = None"
        by (simp add: old2_def old1_def)
      then show "(\<forall>q. q \<noteq> [] \<longrightarrow> old2 q = look st ((D @ [x]) @ q)) \<or> (\<forall>q. q \<noteq> [] \<longrightarrow> old2 q = None)" ..
    qed
  qed
  from dx have lx: "look st (S @ [x]) \<noteq> None" by (auto simp: dirp_def)
  from Cons.IH [OF v source_ok_child [OF Cons.prems(2) lx] vo]
  obtain old' where o: "view_ok st ((D @ [x]) @ r) old'"
    "\<forall>rel. expected f m st (S @ [x]) (D @ [x]) old2 (r @ rel) =
        expected f m st ((S @ [x]) @ r) ((D @ [x]) @ r) old' rel"
    by blast
  show ?case
  proof (intro exI conjI allI)
    show "view_ok st (D @ x # r) old'" using o(1) by simp
  next
    fix rel
    show "expected f m st S D old ((x # r) @ rel) = expected f m st (S @ x # r) (D @ x # r) old' rel"
      using e [of "r @ rel"] o(2) [rule_format, of rel] by simp
  qed
qed

lemma view_ok_initial: "view_ok st D (\<lambda>r. look st (D @ r))"
  by (simp add: view_ok_def)

text \<open>What a successful run leaves at a path below a directory it visits.\<close>

lemma mirror_at_visited:
  assumes hy: "hyps f m S D st"
    and run: "CopyFolderContentsWithFilter k S D m f st = Some (st', None)"
    and v: "visited f st S r"
  shows "\<exists>old'. view_ok st (D @ r) old' \<and>
     (\<forall>rel. look st' (D @ r @ rel) = expected f m st (S @ r) (D @ r) old' rel)"
proof -
  from mirror_post [OF hy run]
  have ex: "\<forall>rel. look st' (D @ rel) = expected f m st S D (\<lambda>r. look st (D @ r)) rel"
    unfolding post_def by simp
  from hy have nc: "source_ok f m S st" unfolding hyps_def by simp
  from expected_visited_view [OF v nc view_ok_initial, of D]
  obtain old' where o: "view_ok st (D @ r) old'"
    "\<forall>rel. expected f m st S D (\<lambda>r. look st (D @ r)) (r @ rel) = expected f m st (S @ r) (D @ r) old' rel"
    by blast
  show ?thesis
  proof (intro exI conjI allI)
    show "view_ok st (D @ r) old'" by (rule o(1))
  next
    fix rel
    show "look st' (D @ r @ rel) = expected f m st (S @ r) (D @ r) old' rel"
      using ex [rule_format, of "r @ rel"] o(2) [rule_format, of rel] by simp
  qed
qed

lemma accepted_files_D:
  assumes "n \<in> set (accepted_files f st S)"
  shows "f n \<and> (\<exists>pm bs. look st (S @ [n]) = Some (File pm bs))"
proof -
  from assms have "f n" "is_file (look st (S @ [n]))" by (simp_all add: accepted_files_def)
  then show ?thesis by (cases "look st (S @ [n])" rule: is_file.cases) auto
qed

lemma manifest_records:
  assumes "encodable f st S D" "visited f st S r"
  shows "gob_records (manifest_bytes f st (S @ r) (D @ r)) =
     (map (\<lambda>n. path_string (D @ r @ [n])) (accepted_files f st (S @ r)), None)"
proof -
  have "\<forall>s\<in>set (map (\<lambda>n. path_string (D @ r @ [n])) (accepted_files f st (S @ r))). enc_ok s"
    using assms unfolding encodable_def by auto
  from gob_records_stream [OF this] show ?thesis
    by (simp add: manifest_bytes_def comp_def)
qed

lemma visited_manifest:
  assumes "hyps f m S D st"
    and "CopyFolderContentsWithFilter k S D m f st = Some (st', None)"
    and "visited f st S r"
  shows "look st' (D @ r @ [m]) = Some (File perm_0644 (manifest_bytes f st (S @ r) (D @ r))) \<and>
      gob_records (manifest_bytes f st (S @ r) (D @ r)) =
        (map (\<lambda>n. path_string (D @ r @ [n])) (accepted_files f st (S @ r)), None) \<and>
      (\<forall>n\<in>set (accepted_files f st (S @ r)).
         \<exists>pm pm' bs. look st (S @ r @ [n]) = Some (File pm bs) \<and>
                     look st' (D @ r @ [n]) = Some (File pm' bs))"
proof -
  from mirror_at_visited [OF assms] obtain old' where
    ex: "\<forall>rel. look st' (D @ r @ rel) = expected f m st (S @ r) (D @ r) old' rel"
    by blast
  from mirror_post [OF assms(1,2)] have en: "encodable f st S D" unfolding post_def by simp
  from assms(1) have nc: "source_ok f m S st" unfolding hyps_def by simp
  have m: "look st' (D @ r @ [m]) = Some (File perm_0644 (manifest_bytes f st (S @ r) (D @ r)))"
    using ex [rule_format, of "[m]"] by (simp add: expected_Cons)
  have fl: "\<forall>n\<in>set (accepted_files f st (S @ r)).
         \<exists>pm pm' bs. look st (S @ r @ [n]) = Some (File pm bs) \<and>
                     look st' (D @ r @ [n]) = Some (File pm' bs)"
  proof
    fix n assume "n \<in> set (accepted_files f st (S @ r))"
    from accepted_files_D [OF this] obtain pm bs where
      fn: "f n" and src: "look st ((S @ r) @ [n]) = Some (File pm bs)" by auto
    from source_ok_name [OF source_ok_descend [OF assms(3) nc] fn] src have nm: "n \<noteq> m" by simp
    have "look st' (D @ r @ [n]) = expected f m st (S @ r) (D @ r) old' [n]"
      using ex [rule_format, of "[n]"] .
    with nm fn src show "\<exists>pm pm' bs. look st (S @ r @ [n]) = Some (File pm bs) \<and>
                     look st' (D @ r @ [n]) = Some (File pm' bs)"
      by (simp add: expected_Cons child_expected_def)
  qed
  from m manifest_records [OF en assms(3)] fl show ?thesis by blast
qed

text \<open>
  C4, as amended. Under the conditions \<^verbatim>\<open>hyps\<close> (no symbolic links, trees disjoint, old
  manifests local, no accepted source entry named like the manifest, no magic character
  in a source name): after a successful run, the manifest of every destination directory
  the run visited decodes, without error, to exactly the destination paths of the files
  the run copied into that directory: the children of the source directory that pass the
  filter and are files, each of which is at the destination with the bytes of its source.
  Files copied into a subdirectory are in that subdirectory's manifest, by the same
  statement one level down.
\<close>

theorem manifest_complete:
  assumes "hyps f m S D st"
    and "CopyFolderContentsWithFilter k S D m f st = Some (st', None)"
    and "visited f st S r"
  shows "\<exists>c. look st' (D @ r @ [m]) = Some (File perm_0644 c) \<and>
      gob_records c = (map (\<lambda>n. path_string (D @ r @ [n])) (accepted_files f st (S @ r)), None) \<and>
      (\<forall>n\<in>set (accepted_files f st (S @ r)).
         \<exists>pm pm' bs. look st (S @ r @ [n]) = Some (File pm bs) \<and>
                     look st' (D @ r @ [n]) = Some (File pm' bs))"
  using visited_manifest [OF assms] by blast



text \<open>
  C3, as amended. Under the conditions \<^verbatim>\<open>hyps\<close> (no symbolic links, trees disjoint, old
  manifests local, no accepted source entry named like the manifest, no magic character
  in a source name): in a directory the run visits, an entry whose name the filter
  rejects (and which is not the manifest) is absent after a successful run, with
  everything below it, when it was absent before the run or recorded in that directory's
  manifest, as every file written there by an earlier run is.
\<close>

theorem excluded_entry_absent:
  assumes "hyps f m S D st"
    and "CopyFolderContentsWithFilter k S D m f st = Some (st', None)"
    and "visited f st S r"
    and "\<not> f n" and "n \<noteq> m"
    and "look st (D @ r @ [n]) = None \<or> recorded (D @ r) (old_records st (D @ r @ [m])) n"
  shows "look st' (D @ r @ n # rest) = None"
proof -
  from assms(1) have g: "good st" unfolding hyps_def by simp
  from mirror_at_visited [OF assms(1,2,3)] obtain old' where
    vo: "view_ok st (D @ r) old'"
    and ex: "\<forall>rel. look st' (D @ r @ rel) = expected f m st (S @ r) (D @ r) old' rel"
    by blast
  have "expected f m st (S @ r) (D @ r) old' (n # rest) = None"
    using vo unfolding view_ok_def
  proof
    assume a: "\<forall>q. q \<noteq> [] \<longrightarrow> old' q = look st ((D @ r) @ q)"
    then have om: "(case old' [m] of Some (File pm c) \<Rightarrow> fst (gob_records c) | _ \<Rightarrow> []) =
        old_records st (D @ r @ [m])"
      by (simp add: old_records_def)
    show ?thesis
    proof (cases "recorded (D @ r) (old_records st (D @ r @ [m])) n")
      case True
      with om assms(4,5) show ?thesis by (simp add: expected_Cons)
    next
      case False
      with assms(6) have "look st (D @ r @ [n]) = None" by simp
      from prefix_absent [OF g this, of "D @ r @ n # rest"] have "look st (D @ r @ n # rest) = None"
        by simp
      with a om False assms(4,5) show ?thesis by (simp add: expected_Cons)
    qed
  next
    assume a: "\<forall>q. q \<noteq> [] \<longrightarrow> old' q = None"
    with assms(4,5) show ?thesis by (simp add: expected_Cons)
  qed
  with ex [rule_format, of "n # rest"] show ?thesis by simp
qed

section \<open>Concrete filesystems\<close>

text \<open>The runs below are evaluated with the definitions of the model.\<close>

lemmas run_defs =
  CopyFolderContents_def CopyFolderContentsWithFilter.simps copy_loop.simps
  Clean_def Create_def AddFile_def Close_def newFileManifest_def
  filepath_Join_def filepath_Glob_def pathSeparatorsLimit_def glob_def filepath_Match_def
  chunks.simps scanChunk_def matchChunk_def matchChunk_loop.simps class_ranges.simps getEsc_def
  utf8_DecodeRuneInString_def utf8_RuneError_def hasMeta_def GetPathRelativeTo_def filepath_Rel_def filepath_Dir_def
  FileExists_def IsDir_def os_Stat_def os_Lstat_def resolve.simps look_def put_def children_def
  os_MkdirAll.simps os_Mkdir_def CopyFile_def ioutil_ReadFile_def WriteFileWithSamePermissions_def
  ioutil_WriteFile_def os_OpenFile_create_trunc_def os_Open_def os_File_Write_def os_File_Close_def
  write_at_def gob_Encode_def gob_message_def gob_payload_def gob_uint_def tooBig_def
  gob_Decode_def decode_uint_def decode_string_message_def be_val_def clean_loop.simps
  os_RemoveAll_def endsWithDot_def remove_below_def remove_tree_def path_string_def Separator_def symloop_max_def
  perm_0644_def perm_0700_def perm_0755_def Let_def
  default_filter_def PathContainsHiddenFileOrFolder_def strings_HasPrefix_def

lemma noglobI:
  assumes "\<forall>c\<in>set S. \<not> hasMeta c"
    and "\<forall>x\<in>set (entries st). case x of (p, nd) \<Rightarrow> \<forall>c\<in>set p. \<not> hasMeta c"
  shows "noglob S st"
  unfolding noglob_def
proof (intro conjI allI impI)
  show "\<forall>c\<in>set S. \<not> hasMeta c" by (rule assms(1))
next
  fix r assume l: "look st (S @ r) \<noteq> None"
  show "\<forall>c\<in>set r. \<not> hasMeta c"
  proof (cases "S @ r = []")
    case True
    then show ?thesis by simp
  next
    case False
    with l obtain nd where "map_of (entries st) (S @ r) = Some nd" by (auto simp: look_def)
    then have "(S @ r, nd) \<in> set (entries st)" by (rule map_of_SomeD)
    with assms(2) have "\<forall>c\<in>set (S @ r). \<not> hasMeta c" by fastforce
    then show ?thesis by simp
  qed
qed

definition plain_node :: "node \<Rightarrow> bool" where
  "plain_node nd = (case nd of Symlink pm t \<Rightarrow> False | _ \<Rightarrow> True)"

lemma good_entriesI:
  assumes "\<forall>x\<in>set (entries st). case x of (p, nd) \<Rightarrow>
      p \<noteq> [] \<and> valid_path p \<and> plain_node nd \<and> dirp st (butlast p)"
  shows "good st"
  unfolding good_def
proof (intro allI impI)
  fix p nd assume l: "look st p = Some nd"
  show "valid_path p \<and> (\<forall>pm t. nd \<noteq> Symlink pm t) \<and> (p \<noteq> [] \<longrightarrow> dirp st (butlast p))"
  proof (cases "p = []")
    case True
    with l show ?thesis by auto
  next
    case False
    with l have "map_of (entries st) p = Some nd" by (simp add: look_def)
    then have "(p, nd) \<in> set (entries st)" by (rule map_of_SomeD)
    with assms show ?thesis by (auto simp: plain_node_def)
  qed
qed

lemma local_manifestsI:
  assumes "\<forall>x\<in>set (entries st). case x of (p, nd) \<Rightarrow>
      p \<noteq> [] \<longrightarrow> last p = m \<longrightarrow> local_records (butlast p) (old_records st p)"
  shows "local_manifests D m st"
  unfolding local_manifests_def
proof (intro allI impI)
  fix D'
  show "local_records D' (old_records st (D' @ [m]))"
  proof (cases "look st (D' @ [m])")
    case None
    then show ?thesis by simp
  next
    case (Some nd)
    then have "map_of (entries st) (D' @ [m]) = Some nd" by (simp add: look_def)
    then have "(D' @ [m], nd) \<in> set (entries st)" by (rule map_of_SomeD)
    with assms show ?thesis by fastforce
  qed
qed

lemma gob_records_single: "enc_ok s \<Longrightarrow> gob_records (gob_message s) = ([s], None)"
  using gob_records_append [of "[]" s] by simp

definition ex0 :: state where
  "ex0 = \<lparr>entries = [([''s''], Dir 493), ([''s'', ''a''], File 420 ''hi''),
      ([''s'', ''d''], Dir 488), ([''s'', ''d'', ''b''], File 384 ''x''), ([''t''], Dir 493)],
     opened = [], cwd = []\<rparr>"

definition ex1 :: state where
  "ex1 = \<lparr>entries = [([''s''], Dir 493), ([''s'', ''a''], File 420 ''hi''),
      ([''s'', ''d''], Dir 488), ([''s'', ''d'', ''b''], File 384 ''x''), ([''t''], Dir 493),
      ([''t'', ''.m''], File 420 (gob_message ''/t/a'')), ([''t'', ''a''], File 420 ''hi''),
      ([''t'', ''d''], Dir 488), ([''t'', ''d'', ''.m''], File 420 (gob_message ''/t/d/b'')),
      ([''t'', ''d'', ''b''], File 384 ''x'')],
     opened = [], cwd = []\<rparr>"

lemma ex0_run:
  "CopyFolderContentsWithFilter 3 [''s''] [''t''] ''.m'' default_filter ex0 = Some (ex1, None)"
  by (simp add: ex0_def ex1_def run_defs)

lemma ex0_hyps: "hyps default_filter ''.m'' [''s''] [''t''] ex0"
proof -
  have "good ex0"
    by (rule good_entriesI) (simp add: ex0_def plain_node_def dirp_def look_def valid_name_def Separator_def)
  moreover have "local_manifests [''t''] ''.m'' ex0"
    by (rule local_manifestsI) (simp add: ex0_def)
  moreover have "source_ok default_filter ''.m'' [''s''] ex0"
    unfolding source_ok_def
    by (intro conjI noglobI) (simp_all add: noclash_def run_defs ex0_def hasMeta_def)
  ultimately show ?thesis
    by (simp add: hyps_def disjoint_trees_def valid_name_def Separator_def)
qed


lemma ex0_children_d: "accepted_files default_filter ex0 [''s'', ''d''] = [''b'']"
  by (simp add: accepted_files_def ex0_def run_defs)

theorem manifest_complete_witness:
  "hyps default_filter ''.m'' [''s''] [''t''] ex0 \<and>
   CopyFolderContentsWithFilter 3 [''s''] [''t''] ''.m'' default_filter ex0 = Some (ex1, None) \<and>
   visited default_filter ex0 [''s''] [''d''] \<and>
   (\<exists>c. look ex1 [''t'', ''d'', ''.m''] = Some (File perm_0644 c) \<and>
        gob_records c = ([''/t/d/b''], None)) \<and>
   look ex1 [''t'', ''d'', ''b''] = Some (File 384 ''x'')"
proof -
  have v: "visited default_filter ex0 [''s''] [''d'']"
    by (simp add: dirp_def ex0_def run_defs)
  from manifest_complete [OF ex0_hyps ex0_run v]
  obtain c where "look ex1 ([''t''] @ [''d''] @ [''.m'']) = Some (File perm_0644 c)"
    "gob_records c = (map (\<lambda>n. path_string ([''t''] @ [''d''] @ [n]))
        (accepted_files default_filter ex0 ([''s''] @ [''d''])), None)"
    by blast
  then have "\<exists>c. look ex1 [''t'', ''d'', ''.m''] = Some (File perm_0644 c) \<and>
        gob_records c = ([''/t/d/b''], None)"
    by (simp add: ex0_children_d path_string_def Separator_def)
  moreover have "look ex1 [''t'', ''d'', ''b''] = Some (File 384 ''x'')"
    by (simp add: ex1_def look_def)
  ultimately show ?thesis using ex0_hyps ex0_run v by simp
qed

definition accept_all :: "string \<Rightarrow> bool" where
  "accept_all p = True"

definition clash_manifest :: string where
  "clash_manifest =
     ''zz'' @ [CHR 0x00, CHR 0x00, CHR 0x00, CHR 0x00, CHR 0x00, CHR 0x00] @ gob_message ''/t/.m''"

definition clash0 :: state where
  "clash0 = \<lparr>entries = [([''s''], Dir 493), ([''s'', ''+''], File 420 ''p''),
      ([''s'', ''.m''], File 420 ''zz''), ([''t''], Dir 493)],
     opened = [], cwd = []\<rparr>"

definition clash1 :: state where
  "clash1 = \<lparr>entries = [([''s''], Dir 493), ([''s'', ''+''], File 420 ''p''),
      ([''s'', ''.m''], File 420 ''zz''), ([''t''], Dir 493),
      ([''t'', ''.m''], File 420 clash_manifest), ([''t'', ''+''], File 420 ''p'')],
     opened = [], cwd = []\<rparr>"

text \<open>
  C4. The filter accepts every name and the source holds a file named like the manifest,
  after a file \<^verbatim>\<open>+\<close>. The run succeeds. Copying the second file truncates the manifest that
  holds the record of the first, and the record of the second is written at the old
  offset: the manifest the run leaves does not decode, and the first file, copied into
  the directory, is not in it.
\<close>

theorem manifest_overwritten:
  "CopyFolderContentsWithFilter 3 [''s''] [''t''] ''.m'' accept_all clash0 = Some (clash1, None) \<and>
   accept_all ''+'' \<and> look clash0 [''t'', ''+''] = None \<and>
   look clash1 [''t'', ''+''] = Some (File 420 ''p'') \<and>
   look clash1 [''t'', ''.m''] = Some (File 420 clash_manifest) \<and>
   gob_records clash_manifest = ([], Some ErrUnexpectedEOF)"
proof -
  have "CopyFolderContentsWithFilter 3 [''s''] [''t''] ''.m'' accept_all clash0 = Some (clash1, None)"
    by (simp add: clash0_def clash1_def clash_manifest_def accept_all_def run_defs)
  moreover have "look clash1 [''t'', ''+''] = Some (File 420 ''p'')"
    "look clash1 [''t'', ''.m''] = Some (File 420 clash_manifest)"
    "look clash0 [''t'', ''+''] = None" "accept_all ''+''"
    by (simp_all add: clash0_def clash1_def look_def accept_all_def)
  moreover have "gob_records clash_manifest = ([], Some ErrUnexpectedEOF)"
    by (simp add: clash_manifest_def gob_records.simps gob_Decode_def decode_uint_def
        gob_message_def gob_payload_def gob_uint_def tooBig_def)
  ultimately show ?thesis by simp
qed


definition ex2 :: state where
  "ex2 = \<lparr>entries = [([''s''], Dir 493), ([''s'', ''a''], File 420 ''hi''),
      ([''s'', ''d''], Dir 488), ([''t''], Dir 493), ([''t'', ''d''], Dir 488),
      ([''t'', ''.m''], File 420 (gob_message ''/t/a'')), ([''t'', ''a''], File 420 ''hi''),
      ([''t'', ''d'', ''.m''], File 420 [])],
     opened = [], cwd = []\<rparr>"



text \<open>
  An earlier run with a filter that accepts everything copied the directory \<^verbatim>\<open>.h\<close>; the
  next run, with the default filter, skips it and leaves it where it is: directories are in
  no manifest, and the manifests below a skipped directory are not read.
\<close>

definition hid0 :: state where
  "hid0 = \<lparr>entries = [([''s''], Dir 493), ([''s'', ''.h''], Dir 493),
      ([''s'', ''.h'', ''x''], File 420 ''x''), ([''t''], Dir 493)],
     opened = [], cwd = []\<rparr>"

definition hid1 :: state where
  "hid1 = \<lparr>entries = [([''s''], Dir 493), ([''s'', ''.h''], Dir 493),
      ([''s'', ''.h'', ''x''], File 420 ''x''), ([''t''], Dir 493),
      ([''t'', ''.m''], File 420 []), ([''t'', ''.h''], Dir 493),
      ([''t'', ''.h'', ''.m''], File 420 (gob_message ''/t/.h/x'')),
      ([''t'', ''.h'', ''x''], File 420 ''x'')],
     opened = [], cwd = []\<rparr>"

definition hid2 :: state where
  "hid2 = \<lparr>entries = [([''s''], Dir 493), ([''s'', ''.h''], Dir 493),
      ([''s'', ''.h'', ''x''], File 420 ''x''), ([''t''], Dir 493),
      ([''t'', ''.h''], Dir 493),
      ([''t'', ''.h'', ''.m''], File 420 (gob_message ''/t/.h/x'')),
      ([''t'', ''.h'', ''x''], File 420 ''x''), ([''t'', ''.m''], File 420 [])],
     opened = [], cwd = []\<rparr>"

theorem excluded_directory_stays:
  "CopyFolderContentsWithFilter 3 [''s''] [''t''] ''.m'' (\<lambda>p. True) hid0 = Some (hid1, None) \<and>
   CopyFolderContentsWithFilter 3 [''s''] [''t''] ''.m'' default_filter hid1 = Some (hid2, None) \<and>
   default_filter ''.h'' = False \<and>
   look hid2 [''t'', ''.h''] = Some (Dir 493) \<and>
   look hid2 [''t'', ''.h'', ''x''] = Some (File 420 ''x'')"
proof -
  have "CopyFolderContentsWithFilter 3 [''s''] [''t''] ''.m'' (\<lambda>p. True) hid0 = Some (hid1, None)"
    by (simp add: hid0_def hid1_def run_defs)
  moreover have
    "CopyFolderContentsWithFilter 3 [''s''] [''t''] ''.m'' default_filter hid1 = Some (hid2, None)"
    by (simp add: hid1_def hid2_def run_defs)
  moreover have "default_filter ''.h'' = False" by (simp add: run_defs)
  moreover have "look hid2 [''t'', ''.h''] = Some (Dir 493)"
    "look hid2 [''t'', ''.h'', ''x''] = Some (File 420 ''x'')"
    by (simp_all add: hid2_def look_def)
  ultimately show ?thesis by simp
qed

text \<open>A file with a hidden name that the destination's manifest records is removed.\<close>

definition rec0 :: state where
  "rec0 = \<lparr>entries = [([''s''], Dir 493), ([''s'', ''.h''], File 420 ''q''), ([''t''], Dir 493),
      ([''t'', ''.m''], File 420 (gob_message ''/t/.h'')), ([''t'', ''.h''], File 420 ''q'')],
     opened = [], cwd = []\<rparr>"

definition rec1 :: state where
  "rec1 = \<lparr>entries = [([''s''], Dir 493), ([''s'', ''.h''], File 420 ''q''), ([''t''], Dir 493),
      ([''t'', ''.m''], File 420 [])],
     opened = [], cwd = []\<rparr>"

lemma enc_ok_short: "length s < 1000 \<Longrightarrow> enc_ok s"
  by (simp add: enc_ok_def gob_payload_def gob_uint_def tooBig_def)
     (simp add: be_bytes.simps)

theorem excluded_entry_absent_witness:
  "hyps default_filter ''.m'' [''s''] [''t''] rec0 \<and>
   CopyFolderContentsWithFilter 3 [''s''] [''t''] ''.m'' default_filter rec0 = Some (rec1, None) \<and>
   default_filter ''.h'' = False \<and>
   look rec0 [''t'', ''.h''] = Some (File 420 ''q'') \<and>
   look rec1 [''t'', ''.h''] = None"
proof -
  have rc: "gob_records (gob_message ''/t/.h'') = ([''/t/.h''], None)"
    by (rule gob_records_single) (simp add: enc_ok_short)
  have "good rec0"
    by (rule good_entriesI)
       (simp add: rec0_def plain_node_def dirp_def look_def valid_name_def Separator_def)
  moreover have "local_manifests [''t''] ''.m'' rec0"
    by (rule local_manifestsI)
       (simp add: rec0_def old_records_def look_def rc local_records_def path_string_def
          valid_name_def Separator_def)
  moreover have "source_ok default_filter ''.m'' [''s''] rec0"
    unfolding source_ok_def
    by (intro conjI noglobI) (simp_all add: noclash_def run_defs rec0_def hasMeta_def)
  ultimately have h: "hyps default_filter ''.m'' [''s''] [''t''] rec0"
    by (simp add: hyps_def disjoint_trees_def valid_name_def Separator_def)
  have r: "CopyFolderContentsWithFilter 3 [''s''] [''t''] ''.m'' default_filter rec0 = Some (rec1, None)"
    by (simp add: rec0_def rec1_def run_defs)
  have v: "visited default_filter rec0 [''s''] []" by simp
  have nf: "\<not> default_filter ''.h''" by (simp add: run_defs)
  have nm: "''.h'' \<noteq> ''.m''" by simp
  have rd: "look rec0 ([''t''] @ [] @ [''.h'']) = None \<or>
      recorded ([''t''] @ []) (old_records rec0 ([''t''] @ [] @ [''.m''])) ''.h''"
    by (simp add: recorded_def old_records_def rec0_def look_def rc path_string_def
        valid_name_def Separator_def)
  from excluded_entry_absent [OF h r v nf nm rd, of "[]"]
  have "look rec1 [''t'', ''.h''] = None" by simp
  moreover have "look rec0 [''t'', ''.h''] = Some (File 420 ''q'')"
    by (simp add: rec0_def look_def)
  ultimately show ?thesis using h r nf by simp
qed

text \<open>
  C5. The destination holds a directory where the source has a file: the copy fails, the
  run returns the error, and the manifest's file is still open.
\<close>

definition leak0 :: state where
  "leak0 = \<lparr>entries = [([''s''], Dir 493), ([''s'', ''a''], File 420 ''hi''), ([''t''], Dir 493),
      ([''t'', ''a''], Dir 493)],
     opened = [], cwd = []\<rparr>"

definition leak1 :: state where
  "leak1 = \<lparr>entries = [([''s''], Dir 493), ([''s'', ''a''], File 420 ''hi''), ([''t''], Dir 493),
      ([''t'', ''a''], Dir 493), ([''t'', ''.m''], File 420 [])],
     opened = [[''t'', ''.m'']], cwd = []\<rparr>"

theorem manifest_left_open_on_error:
  "CopyFolderContentsWithFilter 3 [''s''] [''t''] ''.m'' default_filter leak0 = Some (leak1, Some EISDIR) \<and>
   opened leak0 = [] \<and> opened leak1 = [[''t'', ''.m'']]"
  by (simp add: leak0_def leak1_def run_defs)

section \<open>The filter's argument\<close>

text \<open>
  When no name of the source path has a magic character, every path listed for the
  directory being mirrored is that directory's path with one more component, and the
  string the loop hands to the filter is that component alone. A rejected child is
  skipped; for an accepted directory the recursive call gets the child as its
  \<^verbatim>\<open>source\<close>.
\<close>

lemma filepath_Glob_child:
  assumes "good st" "valid_path source" "\<forall>c\<in>set source. \<not> hasMeta c"
    and "filepath_Glob st source = Inr files" "file \<in> set files"
  shows "\<exists>n. file = source @ [n]"
  using assms(4,5) unfolding filepath_Glob_good [OF assms(1,2,3)]
  by (auto split: if_splits)

lemma filter_sees_child_name:
  assumes "good st" "valid_path source" "\<forall>c\<in>set source. \<not> hasMeta c"
    and "filepath_Glob st source = Inr listed" "file \<in> set listed"
  shows "file = source @ [last file] \<and> GetPathRelativeTo file source = last file \<and>
    (\<not> flt (last file) \<longrightarrow>
       copy_loop fuel (file # files) source destination m flt man st' =
       copy_loop fuel files source destination m flt man st') \<and>
    (flt (last file) \<longrightarrow> IsDir st' file \<longrightarrow> os_Lstat st' file = Inr info \<longrightarrow>
       os_MkdirAll (filepath_Join destination (last file)) (Mode info) st' = (st1, None) \<longrightarrow>
       copy_loop fuel (file # files) source destination m flt man st' =
       (case CopyFolderContentsWithFilter fuel file (filepath_Join destination (last file)) m flt st1 of
          None \<Rightarrow> None
        | Some (st2, Some err) \<Rightarrow> Some (st2, man, Some err)
        | Some (st2, None) \<Rightarrow> copy_loop fuel files source destination m flt man st2))"
proof -
  from filepath_Glob_child [OF assms] obtain n where f: "file = source @ [n]" by blast
  have r: "GetPathRelativeTo file source = n" unfolding f by (rule GetPathRelativeTo_child)
  show ?thesis
    by (simp add: f r [unfolded f] copy_loop.simps(2) [of fuel "source @ [n]"])
qed

text \<open>
  The listing is made with the pattern \<^verbatim>\<open>source + "/*"\<close>, and a magic character in a name
  of \<^verbatim>\<open>source\<close> is pattern syntax there. The source below holds the directories
  \<^verbatim>\<open>[ab]\<close> and \<^verbatim>\<open>a\<close> and the file \<^verbatim>\<open>a/x\<close>; the filter rejects the name \<^verbatim>\<open>x\<close> and
  nothing else.
\<close>

definition not_x :: "string \<Rightarrow> bool" where
  "not_x p = (p \<noteq> ''x'')"

definition cls0 :: state where
  "cls0 = \<lparr>entries = [([''s''], Dir 493), ([''s'', ''[ab]''], Dir 493), ([''s'', ''a''], Dir 493),
      ([''s'', ''a'', ''x''], File 420 ''x''), ([''t''], Dir 493)],
     opened = [], cwd = []\<rparr>"

definition cls1 :: state where
  "cls1 = \<lparr>entries = [([''s''], Dir 493), ([''s'', ''[ab]''], Dir 493), ([''s'', ''a''], Dir 493),
      ([''s'', ''a'', ''x''], File 420 ''x''), ([''t''], Dir 493),
      ([''t'', ''.m''], File 420 []), ([''t'', ''[ab]''], Dir 493),
      ([''t'', ''[ab]'', ''.m''], File 420 (gob_message ''/t/a/x'')),
      ([''t'', ''a''], Dir 448), ([''t'', ''a'', ''x''], File 420 ''x''),
      ([''t'', ''a'', ''.m''], File 420 [])],
     opened = [], cwd = []\<rparr>"

text \<open>
  C7. The call that mirrors \<^verbatim>\<open>/s/[ab]\<close> lists \<^verbatim>\<open>/s/a/x\<close>, which is no child of it, and
  asks the filter about \<^verbatim>\<open>../a/x\<close>: the path of the entry relative to the directory of
  the call, not relative to the entry's parent \<^verbatim>\<open>/s/a\<close>, which would be \<^verbatim>\<open>x\<close>. The filter
  accepts it, and the file that the filter rejects by its name is copied to
  \<^verbatim>\<open>/t/a/x\<close>.
\<close>

theorem filter_sees_climbing_path:
  "filepath_Glob cls0 [''s'', ''[ab]''] = Inr [[''s'', ''a'', ''x'']] \<and>
   GetPathRelativeTo [''s'', ''a'', ''x''] [''s'', ''[ab]''] = ''../a/x'' \<and>
   GetPathRelativeTo [''s'', ''a'', ''x''] [''s'', ''a''] = ''x'' \<and>
   not_x ''../a/x'' \<and> \<not> not_x ''x'' \<and>
   CopyFolderContentsWithFilter 3 [''s''] [''t''] ''.m'' not_x cls0 = Some (cls1, None) \<and>
   look cls1 [''t'', ''a'', ''x''] = Some (File 420 ''x'')"
proof -
  have g: "filepath_Glob cls0 [''s'', ''[ab]''] = Inr [[''s'', ''a'', ''x'']]"
    by (simp add: cls0_def run_defs)
  have r: "GetPathRelativeTo [''s'', ''a'', ''x''] [''s'', ''[ab]''] = ''../a/x''"
    "GetPathRelativeTo [''s'', ''a'', ''x''] [''s'', ''a''] = ''x''"
    by (simp_all add: run_defs)
  have f: "not_x ''../a/x''" "\<not> not_x ''x''" by (simp_all add: not_x_def)
  have run: "CopyFolderContentsWithFilter 3 [''s''] [''t''] ''.m'' not_x cls0 = Some (cls1, None)"
    by (simp add: cls0_def cls1_def run_defs not_x_def)
  have l: "look cls1 [''t'', ''a'', ''x''] = Some (File 420 ''x'')"
    by (simp add: cls1_def look_def)
  from g r f run l show ?thesis by simp
qed

text \<open>
  A name that is no well-formed pattern: the call for the child \<^verbatim>\<open>d[\<close> fails with
  \<^verbatim>\<open>ErrBadPattern\<close>, and both manifests stay open.
\<close>

definition bad0 :: state where
  "bad0 = \<lparr>entries = [([''s''], Dir 493), ([''s'', ''d[''], Dir 493),
      ([''s'', ''d['', ''x''], File 420 ''x''), ([''t''], Dir 493)],
     opened = [], cwd = []\<rparr>"

definition bad1 :: state where
  "bad1 = \<lparr>entries = [([''s''], Dir 493), ([''s'', ''d[''], Dir 493),
      ([''s'', ''d['', ''x''], File 420 ''x''), ([''t''], Dir 493),
      ([''t'', ''.m''], File 420 []), ([''t'', ''d[''], Dir 493),
      ([''t'', ''d['', ''.m''], File 420 [])],
     opened = [[''t'', ''d['', ''.m''], [''t'', ''.m'']], cwd = []\<rparr>"

lemma malformed_name_error:
  "CopyFolderContentsWithFilter 3 [''s''] [''t''] ''.m'' default_filter bad0 =
     Some (bad1, Some ErrBadPattern)"
  by (simp add: bad0_def bad1_def run_defs)

section \<open>The parent directory of a copied file\<close>

lemma os_MkdirAll_general:
  "good st \<Longrightarrow> valid_path p \<Longrightarrow> os_MkdirAll p pm st = (st', None) \<Longrightarrow>
   good st' \<and> dirp st' p \<and>
   (\<forall>q. look st' q = (if prefix q p \<and> look st q = None then Some (Dir pm) else look st q))"
proof (induction p arbitrary: st' rule: rev_induct)
  case Nil
  then have "st' = st"
    by (subst (asm) os_MkdirAll.simps) (simp add: os_Stat_def resolve.simps)
  with Nil show ?case by simp
next
  case (snoc c p)
  note g = snoc.prems(1)
  from snoc.prems(2) have vp: "valid_path p" and vpc: "valid_path (p @ [c])" by simp_all
  show ?case
  proof (cases "look st (p @ [c])")
    case (Some nd)
    from os_Stat_Some [OF g Some] snoc.prems(3) have d: "node_IsDir nd" and e: "st' = st"
      by (subst (asm) os_MkdirAll.simps; simp split: if_splits)+
    from d Some have dp: "dirp st (p @ [c])" by (cases nd) (auto simp: dirp_def)
    have "\<And>q. prefix q (p @ [c]) \<Longrightarrow> look st q \<noteq> None"
    proof -
      fix q assume "prefix q (p @ [c])"
      then obtain r where r: "p @ [c] = q @ r" by (auto simp: prefix_def)
      show "look st q \<noteq> None"
      proof (cases "r = []")
        case True
        with r Some show ?thesis by simp
      next
        case False
        from good_ancestor [OF g _ False, of q nd] Some r show ?thesis by (auto simp: dirp_def)
      qed
    qed
    with g e dp show ?thesis by auto
  next
    case None
    from os_Stat_None [OF g vpc None] obtain e where e: "os_Stat st (p @ [c]) = Inl e" by blast
    from snoc.prems(3) e obtain st1 where
      rec: "os_MkdirAll p pm st = (st1, None)"
      and mk: "(case os_Mkdir (p @ [c]) pm st1 of
                  (st2, None) \<Rightarrow> (st2, None)
                | (st2, Some e) \<Rightarrow>
                    (case os_Lstat st2 (p @ [c]) of
                       Inr dir \<Rightarrow> if node_IsDir dir then (st2, None) else (st2, Some e)
                     | Inl err1 \<Rightarrow> (st2, Some e))) = (st', None)"
      by (subst (asm) os_MkdirAll.simps) (auto split: prod.splits option.splits)
    from snoc.IH [OF g vp rec]
    have g1: "good st1" and d1: "dirp st1 p"
      and l1: "\<forall>q. look st1 q = (if prefix q p \<and> look st q = None then Some (Dir pm) else look st q)"
      by simp_all
    have np: "\<not> prefix (p @ [c]) p" by (simp add: prefix_def)
    from l1 None np have n1: "look st1 (p @ [c]) = None" by simp
    have rs: "resolve st1 False symloop_max [] (p @ [c]) = Inr (p @ [c])"
      by (rule resolve_good [OF g1 vpc]) (use d1 in simp_all)
    from mk rs n1 have st': "st' = put st1 (p @ [c]) (Dir pm)"
      by (simp add: os_Mkdir_def)
    have nd1: "\<not> dirp st1 (p @ [c])" using n1 by (simp add: dirp_def)
    have g': "good st'" unfolding st'
      by (rule good_put [OF g1 vpc _ _ nd1]) (use d1 in simp_all)
    have "\<forall>q. look st' q = (if prefix q (p @ [c]) \<and> look st q = None then Some (Dir pm) else look st q)"
    proof
      fix q
      show "look st' q = (if prefix q (p @ [c]) \<and> look st q = None then Some (Dir pm) else look st q)"
      proof (cases "q = p @ [c]")
        case True
        with None show ?thesis by (simp add: st' look_put)
      next
        case False
        then have "prefix q (p @ [c]) = prefix q p" by (simp add: prefix_snoc)
        with False l1 show ?thesis by (simp add: st' look_put)
      qed
    qed
    moreover have "dirp st' (p @ [c])" by (simp add: st' look_put dirp_def)
    ultimately show ?thesis using g' by simp
  qed
qed

text \<open>
  C10. The step of the loop for a child that passes the filter and is not a directory, on a
  filesystem without symbolic links: when the step succeeds, the directory of the
  destination path is as it was if it was a directory before, and is a directory with
  permission bits 0700 otherwise, whatever the source directory's bits are.
\<close>

theorem parent_directory_0700:
  assumes "good st" and "valid_path D" and "valid_name n" and "flt n"
    and "\<not> IsDir st (S @ [n])"
    and "copy_loop fuel [S @ [n]] S D m flt man st = Some (st', man', None)"
  shows "(dirp st D \<longrightarrow> look st' D = look st D) \<and>
         (\<not> dirp st D \<longrightarrow> look st' D = Some (Dir perm_0700))"
proof -
  have rel: "GetPathRelativeTo (S @ [n]) S = n" by (rule GetPathRelativeTo_child)
  have jn: "filepath_Join D n = D @ [n]" by (rule filepath_Join_valid [OF assms(2,3)])
  have vDn: "valid_path (D @ [n])" using assms(2,3) by simp
  from assms(6,4,5) obtain st1 st2 where
    mk: "os_MkdirAll D perm_0700 st = (st1, None)"
    and cf: "CopyFile (S @ [n]) (D @ [n]) st1 = (st2, None)"
    and af: "AddFile man (path_string (D @ [n])) st2 = (st', man', None)"
    by (auto simp: copy_loop.simps rel jn filepath_Dir_def split: prod.splits option.splits)
  from os_MkdirAll_general [OF assms(1,2) mk]
  have g1: "good st1" and d1: "dirp st1 D"
    and l1: "\<forall>q. look st1 q = (if prefix q D \<and> look st q = None then Some (Dir perm_0700) else look st q)"
    by simp_all
  from cf obtain c pm where w: "ioutil_WriteFile (D @ [n]) c pm st1 = (st2, None)"
    by (auto simp: CopyFile_def WriteFileWithSamePermissions_def split: sum.splits)
  from ioutil_WriteFile_good [OF g1 vDn _ w] obtain nd where st2: "st2 = put st1 (D @ [n]) nd"
    by auto
  have l2: "look st2 D = look st1 D" by (simp add: st2 look_put)
  have l3: "look st' D = look st2 D"
  proof -
    from d1 l2 obtain pmd where "look st2 D = Some (Dir pmd)" by (auto simp: dirp_def)
    then have "\<And>h msg. look (os_File_Write h msg st2) D = look st2 D"
    proof -
      fix h msg
      assume dd: "look st2 D = Some (Dir pmd)"
      show "look (os_File_Write h msg st2) D = look st2 D"
      proof (cases "\<exists>pmf cf. look st2 (hpath h) = Some (File pmf cf)")
        case True
        then obtain pmf cf where fl: "look st2 (hpath h) = Some (File pmf cf)" by blast
        then have "hpath h \<noteq> []" "hpath h \<noteq> D" using dd by auto
        with fl show ?thesis by (simp add: os_File_Write_def look_put)
      next
        case False
        then show ?thesis
          by (auto simp: os_File_Write_def split: option.splits node.splits)
      qed
    qed
    with af show ?thesis
      by (auto simp: AddFile_def split: option.splits sum.splits)
  qed
  have l1D: "look st1 D = (if look st D = None then Some (Dir perm_0700) else look st D)"
    using l1 [rule_format, of D] by simp
  have e: "look st' D = (if look st D = None then Some (Dir perm_0700) else look st D)"
    unfolding l3 l2 l1D ..
  have n: "\<not> dirp st D \<Longrightarrow> look st D = None"
  proof (rule ccontr)
    assume a: "\<not> dirp st D" "look st D \<noteq> None"
    then have "look st1 D = look st D" unfolding l1D by simp
    with d1 a(1) show False by (simp add: dirp_def)
  qed
  show ?thesis
  proof (intro conjI impI)
    assume "dirp st D"
    then show "look st' D = look st D" unfolding e by (auto simp: dirp_def)
  next
    assume "\<not> dirp st D"
    from n [OF this] show "look st' D = Some (Dir perm_0700)" unfolding e by simp
  qed
qed

definition par0 :: state where
  "par0 = \<lparr>entries = [([''s''], Dir 493), ([''s'', ''a''], File 420 ''hi'')],
     opened = [], cwd = []\<rparr>"

definition par1 :: state where
  "par1 = \<lparr>entries = [([''s''], Dir 493), ([''s'', ''a''], File 420 ''hi''),
      ([''t''], Dir 448), ([''t'', ''a''], File 420 ''hi'')],
     opened = [], cwd = []\<rparr>"

definition par_manifest :: fileManifest where
  "par_manifest = \<lparr>Path = [''t'', ''.m''], fileHandle = Some \<lparr>hpath = [''t'', ''.m''], hoffset = 0\<rparr>\<rparr>"

theorem parent_directory_0700_witness:
  "good par0 \<and> \<not> IsDir par0 [''s'', ''a''] \<and> \<not> dirp par0 [''t''] \<and>
   look par0 [''s''] = Some (Dir 493) \<and>
   (\<exists>man'. copy_loop 1 [[''s'', ''a'']] [''s''] [''t''] ''.m'' default_filter par_manifest par0
      = Some (par1, man', None)) \<and>
   look par1 [''t''] = Some (Dir perm_0700)"
proof -
  have g: "good par0"
    by (rule good_entriesI)
       (simp add: par0_def plain_node_def dirp_def look_def valid_name_def Separator_def)
  have nd: "\<not> IsDir par0 ([''s''] @ [''a''])" by (simp add: par0_def run_defs)
  have ndt: "\<not> dirp par0 [''t'']" by (simp add: par0_def dirp_def look_def)
  obtain man' where r: "copy_loop 1 [[''s''] @ [''a'']] [''s''] [''t''] ''.m'' default_filter par_manifest par0
      = Some (par1, man', None)"
    by (simp add: par0_def par1_def par_manifest_def run_defs)
  have vt: "valid_path [''t'']" "valid_name ''a''" "default_filter ''a''"
    by (simp_all add: valid_name_def Separator_def run_defs)
  from parent_directory_0700 [OF g vt nd r] ndt
  have "look par1 [''t''] = Some (Dir perm_0700)" by simp
  moreover have "look par0 [''s''] = Some (Dir 493)" by (simp add: par0_def look_def)
  ultimately show ?thesis using g nd ndt r by auto
qed

section \<open>What Clean does\<close>







text \<open>
  A manifest whose only message ends before the length of its string: the decoder
  returns \<^verbatim>\<open>io.EOF\<close>, which \<^verbatim>\<open>Clean\<close> takes for the end of the record. It removes the
  manifest and returns no error.
\<close>

definition short0 :: state where
  "short0 = \<lparr>entries = [([''t''], Dir 493),
      ([''t'', ''.m''], File 420 [CHR 0x02, CHR 0x0C, CHR 0x00]), ([''t'', ''a''], File 420 ''1'')],
     opened = [], cwd = []\<rparr>"

lemma Clean_short_message:
  "Clean (newFileManifest [''t'', ''.m'']) short0 =
     (\<lparr>entries = [([''t''], Dir 493), ([''t'', ''a''], File 420 ''1'')], opened = [], cwd = []\<rparr>,
      None)"
  by (simp add: short0_def run_defs)




section \<open>Permission bits\<close>

text \<open>
  On a filesystem without symbolic links, an accepted child of a visited directory whose
  destination was absent before the run, or recorded in that directory's manifest, is at
  the destination after a successful run with the permission bits of its source: a file
  with the source file's bits and bytes, a directory with the source directory's bits.
\<close>

lemma new_entry_same_bits:
  assumes "hyps f m S D st"
    and "CopyFolderContentsWithFilter k S D m f st = Some (st', None)"
    and "visited f st S r" and "f n"
    and "look st (D @ r @ [n]) = None \<or> recorded (D @ r) (old_records st (D @ r @ [m])) n"
  shows "(\<forall>pm bs. look st (S @ r @ [n]) = Some (File pm bs) \<longrightarrow>
            look st' (D @ r @ [n]) = Some (File pm bs)) \<and>
         (\<forall>pm. look st (S @ r @ [n]) = Some (Dir pm) \<longrightarrow> look st' (D @ r @ [n]) = Some (Dir pm))"
proof -
  from assms(1) have nc: "source_ok f m S st" unfolding hyps_def by simp
  from mirror_at_visited [OF assms(1,2,3)] obtain old' where
    vo: "view_ok st (D @ r) old'"
    and ex: "\<forall>rel. look st' (D @ r @ rel) = expected f m st (S @ r) (D @ r) old' rel"
    by blast
  define recs where "recs = (case old' [m] of Some (File pm c) \<Rightarrow> fst (gob_records c) | _ \<Rightarrow> [])"
  define old1 where "old1 = (\<lambda>q. if recorded (D @ r) recs n then None else old' q)"
  have o1: "old1 [n] = None"
    using vo unfolding view_ok_def
  proof
    assume a: "\<forall>q. q \<noteq> [] \<longrightarrow> old' q = look st ((D @ r) @ q)"
    then have "recs = old_records st (D @ r @ [m])" by (simp add: recs_def old_records_def)
    with a assms(5) show ?thesis by (auto simp: old1_def)
  next
    assume "\<forall>q. q \<noteq> [] \<longrightarrow> old' q = None"
    then show ?thesis by (simp add: old1_def)
  qed
  have e: "look st' (D @ r @ [n]) = expected f m st (S @ r) (D @ r) old' [n]"
    using ex [rule_format, of "[n]"] .
  have src: "look st ((S @ r) @ [n]) \<noteq> None \<Longrightarrow> n \<noteq> m"
    by (rule source_ok_name [OF source_ok_descend [OF assms(3) nc] assms(4)])
  show ?thesis
  proof (intro conjI allI impI)
    fix pm bs assume s: "look st (S @ r @ [n]) = Some (File pm bs)"
    with src have nm: "n \<noteq> m" by simp
    show "look st' (D @ r @ [n]) = Some (File pm bs)"
      unfolding e using nm assms(4) s o1
      by (simp add: expected_Cons child_expected_def recs_def [symmetric] old1_def [symmetric])
  next
    fix pm assume s: "look st (S @ r @ [n]) = Some (Dir pm)"
    with src have nm: "n \<noteq> m" by simp
    show "look st' (D @ r @ [n]) = Some (Dir pm)"
      unfolding e using nm assms(4) s o1
      by (simp add: expected_Cons child_expected_def recs_def [symmetric] old1_def [symmetric])
  qed
qed

lemma new_entry_same_bits_example:
  "hyps default_filter ''.m'' [''s''] [''t''] ex0 \<and>
   CopyFolderContentsWithFilter 3 [''s''] [''t''] ''.m'' default_filter ex0 = Some (ex1, None) \<and>
   look ex0 [''s'', ''d''] = Some (Dir 488) \<and> look ex0 [''t'', ''d''] = None \<and>
   look ex1 [''t'', ''d''] = Some (Dir 488) \<and>
   look ex0 [''s'', ''d'', ''b''] = Some (File 384 ''x'') \<and>
   look ex1 [''t'', ''d'', ''b''] = Some (File 384 ''x'')"
proof -
  have v0: "visited default_filter ex0 [''s''] []" by simp
  have v1: "visited default_filter ex0 [''s''] [''d'']"
    by (simp add: dirp_def ex0_def run_defs)
  have fd: "default_filter ''d''" "default_filter ''b''" by (simp_all add: run_defs)
  have a0: "look ex0 ([''t''] @ [] @ [''d'']) = None \<or>
      recorded ([''t''] @ []) (old_records ex0 ([''t''] @ [] @ [''.m''])) ''d''"
    by (simp add: ex0_def look_def)
  have a1: "look ex0 ([''t''] @ [''d''] @ [''b'']) = None \<or>
      recorded ([''t''] @ [''d'']) (old_records ex0 ([''t''] @ [''d''] @ [''.m''])) ''b''"
    by (simp add: ex0_def look_def)
  have s0: "look ex0 [''s'', ''d''] = Some (Dir 488)"
    and s1: "look ex0 [''s'', ''d'', ''b''] = Some (File 384 ''x'')"
    and t0: "look ex0 [''t'', ''d''] = None"
    by (simp_all add: ex0_def look_def)
  from new_entry_same_bits [OF ex0_hyps ex0_run v0 fd(1) a0] s0
  have d: "look ex1 [''t'', ''d''] = Some (Dir 488)" by simp
  from new_entry_same_bits [OF ex0_hyps ex0_run v1 fd(2) a1] s1
  have b: "look ex1 [''t'', ''d'', ''b''] = Some (File 384 ''x'')" by simp
  show ?thesis using ex0_hyps ex0_run s0 s1 t0 d b by simp
qed

definition lnk0 :: state where
  "lnk0 = \<lparr>entries = [([''s''], Dir 493), ([''r''], Dir 488), ([''r'', ''b''], File 420 ''x''),
      ([''s'', ''l''], Symlink 511 [''r'']), ([''t''], Dir 493)],
     opened = [], cwd = []\<rparr>"

definition lnk1 :: state where
  "lnk1 = \<lparr>entries = [([''s''], Dir 493), ([''r''], Dir 488), ([''r'', ''b''], File 420 ''x''),
      ([''s'', ''l''], Symlink 511 [''r'']), ([''t''], Dir 493),
      ([''t'', ''.m''], File 420 []), ([''t'', ''l''], Dir 511),
      ([''t'', ''l'', ''.m''], File 420 (gob_message ''/t/l/b'')),
      ([''t'', ''l'', ''b''], File 420 ''x'')],
     opened = [], cwd = []\<rparr>"

text \<open>
  C8. The source holds a symbolic link \<^verbatim>\<open>l\<close> to the directory \<^verbatim>\<open>/r\<close>, whose permission bits
  are 0750. \<^verbatim>\<open>IsDir\<close> classifies the child with \<^verbatim>\<open>os.Stat\<close>, which follows the link, and
  the mode for the new directory is taken with \<^verbatim>\<open>os.Lstat\<close>, which does not: the
  destination directory gets the link's own bits, 0777, where the directory it stands for
  has 0750.
\<close>

theorem symlinked_directory_bits:
  "CopyFolderContentsWithFilter 3 [''s''] [''t''] ''.m'' default_filter lnk0 = Some (lnk1, None) \<and>
   IsDir lnk0 [''s'', ''l''] \<and> os_Stat lnk0 [''s'', ''l''] = Inr (Dir 488) \<and>
   look lnk1 [''t'', ''l''] = Some (Dir 511)"
proof -
  have "CopyFolderContentsWithFilter 3 [''s''] [''t''] ''.m'' default_filter lnk0 = Some (lnk1, None)"
    by (simp add: lnk0_def lnk1_def run_defs)
  moreover have "IsDir lnk0 [''s'', ''l'']" "os_Stat lnk0 [''s'', ''l''] = Inr (Dir 488)"
    by (simp_all add: lnk0_def run_defs)
  moreover have "look lnk1 [''t'', ''l''] = Some (Dir 511)"
    by (simp add: lnk1_def look_def)
  ultimately show ?thesis by simp
qed

text \<open>
  The destination already holds a file \<^verbatim>\<open>a\<close> with bits 0600 that no manifest records. The
  first run overwrites its bytes and leaves its bits; the second run finds it recorded,
  removes it and creates it with the source's bits, 0644.
\<close>

definition pre0 :: state where
  "pre0 = \<lparr>entries = [([''s''], Dir 493), ([''s'', ''a''], File 420 ''hi''), ([''t''], Dir 493),
      ([''t'', ''a''], File 384 ''old'')],
     opened = [], cwd = []\<rparr>"

definition pre1 :: state where
  "pre1 = \<lparr>entries = [([''s''], Dir 493), ([''s'', ''a''], File 420 ''hi''), ([''t''], Dir 493),
      ([''t'', ''a''], File 384 ''hi''), ([''t'', ''.m''], File 420 (gob_message ''/t/a''))],
     opened = [], cwd = []\<rparr>"

definition pre2 :: state where
  "pre2 = \<lparr>entries = [([''s''], Dir 493), ([''s'', ''a''], File 420 ''hi''), ([''t''], Dir 493),
      ([''t'', ''.m''], File 420 (gob_message ''/t/a'')), ([''t'', ''a''], File 420 ''hi'')],
     opened = [], cwd = []\<rparr>"

lemma pre0_run:
  "CopyFolderContentsWithFilter 3 [''s''] [''t''] ''.m'' default_filter pre0 = Some (pre1, None)"
  by (simp add: pre0_def pre1_def run_defs)

lemma pre1_run:
  "CopyFolderContentsWithFilter 3 [''s''] [''t''] ''.m'' default_filter pre1 = Some (pre2, None)"
  by (simp add: pre1_def pre2_def run_defs)

lemma existing_file_keeps_bits:
  "CopyFolderContentsWithFilter 3 [''s''] [''t''] ''.m'' default_filter pre0 = Some (pre1, None) \<and>
   look pre0 [''s'', ''a''] = Some (File 420 ''hi'') \<and>
   look pre1 [''t'', ''a''] = Some (File 384 ''hi'')"
  using pre0_run by (simp add: pre0_def pre1_def look_def)

text \<open>
  C2. Two runs in succession on that filesystem: after the first the destination file \<^verbatim>\<open>a\<close>
  has the bits 0600, after the second 0644. The two destination trees differ.
\<close>

theorem second_run_changes_bits:
  "CopyFolderContentsWithFilter 3 [''s''] [''t''] ''.m'' default_filter pre0 = Some (pre1, None) \<and>
   CopyFolderContentsWithFilter 3 [''s''] [''t''] ''.m'' default_filter pre1 = Some (pre2, None) \<and>
   look pre1 [''t'', ''a''] = Some (File 384 ''hi'') \<and>
   look pre2 [''t'', ''a''] = Some (File 420 ''hi'')"
  using pre0_run pre1_run by (simp add: pre1_def pre2_def look_def)

section \<open>A second run\<close>

text \<open>
  Two nodes at the relative path \<^verbatim>\<open>rel\<close> of the destination, after one run and after two:
  they are the same, or both are the copy of an accepted source file and differ at most
  in their permission bits, the second having the source's.
\<close>

definition same_but_bits ::
  "(string \<Rightarrow> bool) \<Rightarrow> state \<Rightarrow> path \<Rightarrow> path \<Rightarrow> node option \<Rightarrow> node option \<Rightarrow> bool" where
  "same_but_bits f st S rel a b =
     (b = a \<or>
      (\<exists>r n pm pm' bs. rel = r @ [n] \<and> visited f st S r \<and> n \<in> set (accepted_files f st (S @ r)) \<and>
         look st (S @ r @ [n]) = Some (File pm bs) \<and> a = Some (File pm' bs) \<and>
         b = Some (File pm bs)))"

lemma same_but_bits_refl: "same_but_bits f st S rel a a"
  by (simp add: same_but_bits_def)

lemma same_but_bits_child:
  assumes "f n" "dirp st (S @ [n])" "same_but_bits f st (S @ [n]) rest a b"
  shows "same_but_bits f st S (n # rest) a b"
  using assms(3) unfolding same_but_bits_def
proof
  assume "b = a"
  then show "b = a \<or> (\<exists>r na pm pm' bs. n # rest = r @ [na] \<and> visited f st S r \<and>
      na \<in> set (accepted_files f st (S @ r)) \<and> look st (S @ r @ [na]) = Some (File pm bs) \<and>
      a = Some (File pm' bs) \<and> b = Some (File pm bs))" by simp
next
  assume "\<exists>r na pm pm' bs. rest = r @ [na] \<and> visited f st (S @ [n]) r \<and>
      na \<in> set (accepted_files f st ((S @ [n]) @ r)) \<and>
      look st ((S @ [n]) @ r @ [na]) = Some (File pm bs) \<and>
      a = Some (File pm' bs) \<and> b = Some (File pm bs)"
  then obtain r na pm pm' bs where h: "rest = r @ [na]" "visited f st (S @ [n]) r"
      "na \<in> set (accepted_files f st ((S @ [n]) @ r))"
      "look st ((S @ [n]) @ r @ [na]) = Some (File pm bs)"
      "a = Some (File pm' bs)" "b = Some (File pm bs)" by blast
  have "n # rest = (n # r) @ [na] \<and> visited f st S (n # r) \<and>
      na \<in> set (accepted_files f st (S @ (n # r))) \<and>
      look st (S @ (n # r) @ [na]) = Some (File pm bs) \<and>
      a = Some (File pm' bs) \<and> b = Some (File pm bs)"
    using h assms(1,2) by simp
  then show "b = a \<or> (\<exists>r na pm pm' bs. n # rest = r @ [na] \<and> visited f st S r \<and>
      na \<in> set (accepted_files f st (S @ r)) \<and> look st (S @ r @ [na]) = Some (File pm bs) \<and>
      a = Some (File pm' bs) \<and> b = Some (File pm bs))" by blast
qed

lemma encodable_child:
  assumes "encodable f st S D" "f n" "dirp st (S @ [n])"
  shows "encodable f st (S @ [n]) (D @ [n])"
  unfolding encodable_def
proof (intro allI impI)
  fix r x
  assume v: "visited f st (S @ [n]) r" and a: "x \<in> set (accepted_files f st ((S @ [n]) @ r))"
  from v assms(2,3) have "visited f st S (n # r)" by simp
  moreover from a have "x \<in> set (accepted_files f st (S @ (n # r)))" by simp
  ultimately have "enc_ok (path_string (D @ (n # r) @ [x]))"
    using assms(1) unfolding encodable_def by blast
  then show "enc_ok (path_string ((D @ [n]) @ r @ [x]))" by simp
qed

lemma accepted_files_I:
  "f n \<Longrightarrow> look st (S @ [n]) = Some (File pm bs) \<Longrightarrow> n \<in> set (accepted_files f st S)"
  by (simp add: accepted_files_def children_mem)

lemma recorded_accepted:
  assumes g: "good st" and vD: "valid_path D"
  shows "recorded D (map (\<lambda>n. path_string (D @ [n])) (accepted_files f st S)) x
     \<longleftrightarrow> x \<in> set (accepted_files f st S)"
proof
  assume "x \<in> set (accepted_files f st S)"
  moreover from this accepted_files_D [of x f st S] obtain pm bs where
    "look st (S @ [x]) = Some (File pm bs)" by blast
  from good_valid [OF g this] have "valid_name x" by (simp add: valid_path_def)
  ultimately show "recorded D (map (\<lambda>n. path_string (D @ [n])) (accepted_files f st S)) x"
    by (simp add: recorded_def)
next
  assume "recorded D (map (\<lambda>n. path_string (D @ [n])) (accepted_files f st S)) x"
  then obtain y where vx: "valid_name x" and y: "y \<in> set (accepted_files f st S)"
    and e: "path_string (D @ [x]) = path_string (D @ [y])"
    by (auto simp: recorded_def)
  from accepted_files_D [OF y] obtain pm bs where
    "look st (S @ [y]) = Some (File pm bs)" by blast
  from good_valid [OF g this] have vy: "valid_name y" by (simp add: valid_path_def)
  have "D @ [x] = D @ [y]"
    by (rule path_string_inj [OF _ _ _ _ e]) (use vD vx vy in \<open>simp_all add: valid_path_def\<close>)
  with y show "x \<in> set (accepted_files f st S)" by simp
qed

lemma expected_twice:
  assumes g: "good st"
  shows "valid_path D \<Longrightarrow> source_ok f m S st \<Longrightarrow> encodable f st S D \<Longrightarrow>
     same_but_bits f st S rel (expected f m st S D old rel)
       (expected f m st S D (expected f m st S D old) rel)"
proof (induction rel arbitrary: S D old)
  case Nil
  show ?case by (simp add: same_but_bits_refl)
next
  case (Cons n rest)
  note vD = Cons.prems(1) and nc = Cons.prems(2) and en = Cons.prems(3)
  define E where "E = expected f m st S D old"
  define R0 where "R0 = recorded D (case old [m] of Some (File pm c) \<Rightarrow> fst (gob_records c) | _ \<Rightarrow> []) n"
  define old1 where "old1 = (\<lambda>q. if R0 then None else old q)"
  define af where "af = accepted_files f st S"
  have Em: "E [m] = Some (File perm_0644 (manifest_bytes f st S D))"
    by (simp add: E_def expected_Cons)
  have "visited f st S []" by simp
  from manifest_records [OF en this]
  have recs: "(case E [m] of Some (File pm c) \<Rightarrow> fst (gob_records c) | _ \<Rightarrow> []) =
      map (\<lambda>n. path_string (D @ [n])) (accepted_files f st S)"
    by (simp add: Em)
  have R: "recorded D (case E [m] of Some (File pm c) \<Rightarrow> fst (gob_records c) | _ \<Rightarrow> []) n
      \<longleftrightarrow> n \<in> set af"
    unfolding recs af_def by (rule recorded_accepted [OF g vD])
  have first: "E (n # rs) =
     (if n = m then (if rs = [] then Some (File perm_0644 (manifest_bytes f st S D)) else None)
      else if f n then child_expected f m st S D old1 n rs
      else old1 (n # rs))" for rs
    unfolding E_def old1_def R0_def by (simp add: expected_Cons)
  have second: "expected f m st S D E (n # rest) =
     (if n = m then (if rest = [] then Some (File perm_0644 (manifest_bytes f st S D)) else None)
      else if f n then child_expected f m st S D (\<lambda>q. if n \<in> set af then None else E q) n rest
      else if n \<in> set af then None else E (n # rest))"
    by (simp only: expected_Cons [of f m st S D E] R)
  have goal: "same_but_bits f st S (n # rest) (E (n # rest)) (expected f m st S D E (n # rest))"
  proof (cases "n = m")
    case True
    with first second have "expected f m st S D E (n # rest) = E (n # rest)" by simp
    then show ?thesis by (simp only: same_but_bits_refl)
  next
    case nm: False
    show ?thesis
    proof (cases "f n")
      case False
      with accepted_files_D [of n f st S] have "n \<notin> set af" unfolding af_def by blast
      with nm False second have "expected f m st S D E (n # rest) = E (n # rest)" by simp
      then show ?thesis by (simp only: same_but_bits_refl)
    next
      case fn: True
      show ?thesis
      proof (cases "look st (S @ [n])")
        case None
        with accepted_files_D [of n f st S] have na: "n \<notin> set af" unfolding af_def by auto
        from nm fn na None have "expected f m st S D E (n # rest) = E (n # rest)"
          by (simp add: second child_expected_def)
        then show ?thesis by (simp only: same_but_bits_refl)
      next
        case (Some nd)
        show ?thesis
        proof (cases nd)
          case (Symlink pm t)
          with Some accepted_files_D [of n f st S] have na: "n \<notin> set af" unfolding af_def by auto
          from nm fn na Some Symlink have "expected f m st S D E (n # rest) = E (n # rest)"
            by (simp add: second child_expected_def)
          then show ?thesis by (simp only: same_but_bits_refl)
        next
          case (File pm bs)
          with Some have l: "look st (S @ [n]) = Some (File pm bs)" by simp
          from fn l have ia: "n \<in> set af" unfolding af_def by (rule accepted_files_I)
          define pmx where "pmx = (case old1 [n] of Some (File pm0 c0) \<Rightarrow> pm0 | _ \<Rightarrow> pm)"
          have e1: "E (n # rest) = (if rest = [] then Some (File pmx bs) else None)"
            using nm fn l by (simp add: first child_expected_def pmx_def)
          have e2: "expected f m st S D E (n # rest) = (if rest = [] then Some (File pm bs) else None)"
            using nm fn l ia by (simp add: second child_expected_def)
          show ?thesis
          proof (cases "rest = []")
            case False
            then show ?thesis by (simp add: e1 e2 same_but_bits_refl)
          next
            case True
            have "n # rest = [] @ [n] \<and> visited f st S [] \<and> n \<in> set (accepted_files f st (S @ [])) \<and>
                look st (S @ [] @ [n]) = Some (File pm bs) \<and>
                E (n # rest) = Some (File pmx bs) \<and>
                expected f m st S D E (n # rest) = Some (File pm bs)"
              using True l ia e1 e2 by (simp add: af_def)
            then show ?thesis unfolding same_but_bits_def by blast
          qed
        next
          case (Dir pm)
          with Some have l: "look st (S @ [n]) = Some (Dir pm)" by simp
          then have dp: "dirp st (S @ [n])" by (simp add: dirp_def)
          from l accepted_files_D [of n f st S] have na: "n \<notin> set af" unfolding af_def by auto
          from good_valid [OF g l] have vn: "valid_name n" by (simp add: valid_path_def)
          define oldn where "oldn = (\<lambda>r. if r = [] then (case old1 [n] of None \<Rightarrow> Some (Dir pm) | Some nd \<Rightarrow> Some nd)
                 else old1 (n # r))"
          define En where "En = expected f m st (S @ [n]) (D @ [n]) oldn"
          have EnE: "E (n # q) = En q" for q
            using nm fn l by (simp add: first child_expected_def En_def oldn_def)
          have En0: "En [] = oldn []" by (simp add: En_def)
          have on: "oldn [] \<noteq> None" by (simp add: oldn_def split: option.splits)
          have view: "(\<lambda>r. if r = [] then (case E [n] of None \<Rightarrow> Some (Dir pm) | Some nd \<Rightarrow> Some nd)
                 else E (n # r)) = En"
          proof
            fix q
            show "(if q = [] then (case E [n] of None \<Rightarrow> Some (Dir pm) | Some nd \<Rightarrow> Some nd)
                 else E (n # q)) = En q"
            proof (cases "q = []")
              case True
              from EnE [of "[]"] En0 on obtain v where "E [n] = Some v" "En [] = Some v" by auto
              with True show ?thesis by simp
            next
              case False
              then show ?thesis by (simp add: EnE)
            qed
          qed
          have e2: "expected f m st S D E (n # rest) = expected f m st (S @ [n]) (D @ [n]) En rest"
            using nm fn l na by (simp add: second child_expected_def view)
          have vDn: "valid_path (D @ [n])" using vD vn by (simp add: valid_path_def)
          have "same_but_bits f st (S @ [n]) rest (expected f m st (S @ [n]) (D @ [n]) oldn rest)
              (expected f m st (S @ [n]) (D @ [n]) (expected f m st (S @ [n]) (D @ [n]) oldn) rest)"
          proof -
            from l have ln: "look st (S @ [n]) \<noteq> None" by simp
            show ?thesis
              by (rule Cons.IH [OF vDn source_ok_child [OF nc ln] encodable_child [OF en fn dp]])
          qed
          then have "same_but_bits f st (S @ [n]) rest (E (n # rest))
              (expected f m st S D E (n # rest))"
            by (simp only: e2 EnE En_def [symmetric])
          with fn dp show ?thesis by (rule same_but_bits_child)
        qed
      qed
    qed
  qed
  then show ?case by (simp only: E_def)
qed

text \<open>
  C2, as amended. Under the conditions \<^verbatim>\<open>hyps\<close> (no symbolic links, trees disjoint, old
  manifests local, no accepted source entry named like the manifest, no magic character
  in a source name) and with the umask 0: a second successful run with the same source,
  destination, manifest name and filter leaves everything outside the destination as it
  was, and leaves every path under the destination as the first run left it, except that
  the copy of an accepted source file may change its permission bits: after the second
  run they are the source file's.
\<close>

theorem second_run_same_tree:
  assumes "hyps f m S D st0"
    and "CopyFolderContentsWithFilter k1 S D m f st0 = Some (st1, None)"
    and "CopyFolderContentsWithFilter k2 S D m f st1 = Some (st2, None)"
  shows "(\<forall>q. \<not> prefix D q \<longrightarrow> look st2 q = look st1 q) \<and>
         (\<forall>rel. same_but_bits f st0 S rel (look st1 (D @ rel)) (look st2 (D @ rel)))"
proof -
  from assms(1) have g0: "good st0" and vS: "valid_path S" and vD: "valid_path D"
    and vm: "valid_name m" and dj: "disjoint_trees S D" and nc: "source_ok f m S st0"
    unfolding hyps_def by simp_all
  from mirror_post [OF assms(1,2)] have g1: "good st1" and lm1: "local_manifests D m st1"
    and fr1: "\<forall>q. \<not> prefix D q \<longrightarrow> look st1 q = look st0 q"
    and ex1: "\<forall>rel. look st1 (D @ rel) = expected f m st0 S D (\<lambda>r. look st0 (D @ r)) rel"
    and en: "encodable f st0 S D"
    unfolding post_def by simp_all
  have se: "src_eq S st0 st1" by (rule frame_src_eq [OF dj fr1])
  have nc1: "source_ok f m S st1" by (rule source_ok_src_eq [OF se nc])
  have h1: "hyps f m S D st1" unfolding hyps_def using g1 vS vD vm dj lm1 nc1 by simp
  from mirror_post [OF h1 assms(3)]
  have fr2: "\<forall>q. \<not> prefix D q \<longrightarrow> look st2 q = look st1 q"
    and ex2: "\<forall>rel. look st2 (D @ rel) = expected f m st1 S D (\<lambda>r. look st1 (D @ r)) rel"
    unfolding post_def by simp_all
  define old0 where "old0 = (\<lambda>r. look st0 (D @ r))"
  have v1: "(\<lambda>r. look st1 (D @ r)) = expected f m st0 S D old0"
  proof
    fix r show "look st1 (D @ r) = expected f m st0 S D old0 r"
      using ex1 [rule_format, of r] by (simp only: old0_def)
  qed
  have "same_but_bits f st0 S rel (look st1 (D @ rel)) (look st2 (D @ rel))" for rel
  proof -
    have a: "look st1 (D @ rel) = expected f m st0 S D old0 rel"
      using ex1 [rule_format, of rel] by (simp only: old0_def)
    have b: "look st2 (D @ rel) = expected f m st0 S D (expected f m st0 S D old0) rel"
      using ex2 [rule_format, of rel] by (simp only: v1 src_eq_expected [OF se])
    show ?thesis unfolding a b by (rule expected_twice [OF g0 vD nc en])
  qed
  with fr2 show ?thesis by blast
qed

lemma pre0_hyps: "hyps default_filter ''.m'' [''s''] [''t''] pre0"
proof -
  have "good pre0"
    by (rule good_entriesI) (simp add: pre0_def plain_node_def dirp_def look_def valid_name_def Separator_def)
  moreover have "local_manifests [''t''] ''.m'' pre0"
    by (rule local_manifestsI) (simp add: pre0_def)
  moreover have "source_ok default_filter ''.m'' [''s''] pre0"
    unfolding source_ok_def
    by (intro conjI noglobI) (simp_all add: noclash_def run_defs pre0_def hasMeta_def)
  ultimately show ?thesis
    by (simp add: hyps_def disjoint_trees_def valid_name_def Separator_def)
qed

theorem second_run_same_tree_witness:
  "hyps default_filter ''.m'' [''s''] [''t''] pre0 \<and>
   CopyFolderContentsWithFilter 3 [''s''] [''t''] ''.m'' default_filter pre0 = Some (pre1, None) \<and>
   CopyFolderContentsWithFilter 3 [''s''] [''t''] ''.m'' default_filter pre1 = Some (pre2, None) \<and>
   look pre2 [''s'', ''a''] = look pre1 [''s'', ''a''] \<and>
   same_but_bits default_filter pre0 [''s''] [''a'']
     (Some (File 384 ''hi'')) (Some (File 420 ''hi'')) \<and>
   same_but_bits default_filter pre0 [''s''] [''.m'']
     (look pre1 [''t'', ''.m'']) (look pre2 [''t'', ''.m''])"
proof -
  note t = second_run_same_tree [OF pre0_hyps pre0_run pre1_run]
  from t have "\<not> prefix [''t''] [''s'', ''a''] \<longrightarrow> look pre2 [''s'', ''a''] = look pre1 [''s'', ''a'']"
    by blast
  then have a: "look pre2 [''s'', ''a''] = look pre1 [''s'', ''a'']" by simp
  from t have "same_but_bits default_filter pre0 [''s''] [''a'']
      (look pre1 ([''t''] @ [''a''])) (look pre2 ([''t''] @ [''a'']))" by blast
  then have b: "same_but_bits default_filter pre0 [''s''] [''a'']
     (Some (File 384 ''hi'')) (Some (File 420 ''hi''))"
    by (simp add: pre1_def pre2_def look_def)
  from t have "same_but_bits default_filter pre0 [''s''] [''.m'']
      (look pre1 ([''t''] @ [''.m''])) (look pre2 ([''t''] @ [''.m'']))" by blast
  then have c: "same_but_bits default_filter pre0 [''s''] [''.m'']
     (look pre1 [''t'', ''.m'']) (look pre2 [''t'', ''.m''])" by simp
  show ?thesis using pre0_hyps pre0_run pre1_run a b c by simp
qed

end
